theory Spec2Isabelle
  imports Main "HOL-Library.AList"
begin

section \<open>QuickDefine: the three-tier dictionary lookup\<close>

text \<open>
  A shallow embedding of the QuickDefine extension's data-resolution core:
  \<^item> \<open>SimpleCache\<close> (utils.js): the in-memory hot cache, a JavaScript \<open>Map\<close> with a
    capacity and a time to live;
  \<^item> \<open>DictionaryDB\<close> (the IndexedDB database manager) and \<open>storeBatch\<close>
    (background.js): the IndexedDB store;
  \<^item> \<open>fetchWithTimeout\<close> and \<open>DictionaryManager\<close> (utils.js): the remote fetch and the
    cascade over the three tiers.

  Conventions of the model. A JavaScript \<open>Map\<close> iterates in insertion order, so it is an
  association list with distinct keys, oldest first. \<open>Date.now()\<close> is a parameter
  \<open>now\<close> (milliseconds, an integer). Everything the platform decides (whether a
  network attempt answers, fails or stays silent; whether an IndexedDB request succeeds;
  what \<open>trim\<close>, \<open>toLowerCase\<close> and \<open>encodeURIComponent\<close> return) is read from an
  environment record. One call runs to its end without interleaving with
  another call.
\<close>

subsection \<open>The JavaScript \<open>Map\<close>\<close>

text \<open>
  \<open>Map.prototype.set\<close> keeps the position of a key that is present and appends a new
  key (\<^const>\<open>AList.update\<close>); \<open>Map.prototype.delete\<close> removes the key
  (\<^const>\<open>AList.delete\<close>); \<open>Map.prototype.get\<close> is \<^const>\<open>map_of\<close>;
  \<open>map.keys().next().value\<close> is the first key, \<open>undefined\<close> on an empty map.
\<close>

definition firstKey :: "('k \<times> 'a) list \<Rightarrow> 'k option" where
  "firstKey m = (case m of [] \<Rightarrow> None | (k, _) # _ \<Rightarrow> Some k)"

subsection \<open>\<open>SimpleCache\<close>\<close>

text \<open>
  The cache has its capacity \<open>maxSize\<close> (a count: 500 in the configuration), its time to
  live in milliseconds, and the map from keys to items; an item is a value with the time
  at which it was set.
\<close>

record 'v item =
  item_value :: 'v
  timestamp :: int

record 'v SimpleCache =
  maxSize :: nat
  ttl :: int
  cache :: "(string \<times> 'v item) list"

definition SimpleCache_new :: "nat \<Rightarrow> int \<Rightarrow> 'v SimpleCache" where
  "SimpleCache_new n t = \<lparr>maxSize = n, ttl = t, cache = []\<rparr>"

text \<open>
  \<open>get(key)\<close>: absent when the key is missing; an expired item is deleted and absent is
  returned; otherwise the same item (its timestamp untouched) is deleted and set again,
  which moves it to the end, and its value is returned.
\<close>

definition SimpleCache_get :: "int \<Rightarrow> string \<Rightarrow> 'v SimpleCache \<Rightarrow> 'v option \<times> 'v SimpleCache" where
  "SimpleCache_get now key c =
     (case map_of (cache c) key of
        None \<Rightarrow> (None, c)
      | Some it \<Rightarrow>
          if now - timestamp it > ttl c
          then (None, c\<lparr>cache := AList.delete key (cache c)\<rparr>)
          else (Some (item_value it),
                c\<lparr>cache := AList.update key it (AList.delete key (cache c))\<rparr>))"

text \<open>
  \<open>set(key, value)\<close>: when the map holds \<open>maxSize\<close> entries or more, its first key is
  deleted (deleting \<open>undefined\<close> from an empty map does nothing); then the key is set to
  a new item stamped with the current time.
\<close>

definition SimpleCache_set :: "int \<Rightarrow> string \<Rightarrow> 'v \<Rightarrow> 'v SimpleCache \<Rightarrow> 'v SimpleCache" where
  "SimpleCache_set now key v c =
     (let m = (if length (cache c) \<ge> maxSize c
               then (case firstKey (cache c) of
                       None \<Rightarrow> cache c
                     | Some k \<Rightarrow> AList.delete k (cache c))
               else cache c)
      in c\<lparr>cache := AList.update key \<lparr>item_value = v, timestamp = now\<rparr> m\<rparr>)"

definition SimpleCache_clear :: "'v SimpleCache \<Rightarrow> 'v SimpleCache" where
  "SimpleCache_clear c = c\<lparr>cache := []\<rparr>"

definition SimpleCache_size :: "'v SimpleCache \<Rightarrow> nat" where
  "SimpleCache_size c = length (cache c)"

subsection \<open>Histories of cache operations\<close>

text \<open>
  A history is the list of calls made on one cache, each with the value of \<open>Date.now()\<close>
  at the call. \<open>accessed\<close> lists the keys in the order of the calls, \<open>inserted\<close> the keys
  of the \<open>set\<close> calls. \<open>last_access ks k\<close> is the position (counted from 1) of the last
  call on \<open>k\<close>, and 0 when \<open>k\<close> was never used: the larger, the more recently used.
\<close>

datatype 'v cache_op = Get string | Set string 'v

fun op_key :: "'v cache_op \<Rightarrow> string" where
  "op_key (Get k) = k"
| "op_key (Set k v) = k"

fun is_Set :: "'v cache_op \<Rightarrow> bool" where
  "is_Set (Get k) = False"
| "is_Set (Set k v) = True"

fun cache_step :: "'v SimpleCache \<Rightarrow> int \<times> 'v cache_op \<Rightarrow> 'v SimpleCache" where
  "cache_step c (t, Get k) = snd (SimpleCache_get t k c)"
| "cache_step c (t, Set k v) = SimpleCache_set t k v c"

definition cache_run :: "'v SimpleCache \<Rightarrow> (int \<times> 'v cache_op) list \<Rightarrow> 'v SimpleCache" where
  "cache_run c ops = foldl cache_step c ops"

definition accessed :: "(int \<times> 'v cache_op) list \<Rightarrow> string list" where
  "accessed ops = map (op_key \<circ> snd) ops"

definition inserted :: "(int \<times> 'v cache_op) list \<Rightarrow> string list" where
  "inserted ops = map (op_key \<circ> snd) (filter (is_Set \<circ> snd) ops)"

definition last_access :: "string list \<Rightarrow> string \<Rightarrow> nat" where
  "last_access ks k = length (dropWhile (\<lambda>x. x \<noteq> k) (rev ks))"

text \<open>
  The invariant behind the eviction order: the keys of the map are distinct, each was
  inserted, and the map iterates them from the least to the most recently used.
\<close>

definition lru_inv :: "string list \<Rightarrow> string list \<Rightarrow> 'v SimpleCache \<Rightarrow> bool" where
  "lru_inv ins ks c \<longleftrightarrow>
     distinct (map fst (cache c)) \<and> fst ` set (cache c) \<subseteq> set ins \<and>
     sorted_wrt (\<lambda>a b. last_access ks a < last_access ks b) (map fst (cache c))"

subsection \<open>Values, errors and promises\<close>

text \<open>
  Dictionary data is JSON. The code tests values for truthiness (\<open>if (apiResult.data)\<close>,
  \<open>entry.data || entry\<close>): \<open>null\<close>, \<open>false\<close>, \<open>0\<close> and the empty string are falsy,
  every array and object is truthy. Numbers are integers here.
\<close>

datatype json =
  JNull | JBool bool | JNum int | JStr string | JArr "json list" | JObj "(string \<times> json) list"

fun truthy :: "json \<Rightarrow> bool" where
  "truthy JNull = False"
| "truthy (JBool b) = b"
| "truthy (JNum n) = (n \<noteq> 0)"
| "truthy (JStr s) = (s \<noteq> [])"
| "truthy (JArr xs) = True"
| "truthy (JObj kvs) = True"

text \<open>A thrown value: an \<open>Error\<close> with its \<open>name\<close> and \<open>message\<close>.\<close>

datatype js_error = JsError (err_name: string) (err_message: string)

text \<open>
  The final state of a promise: \<open>Pending\<close> is a promise that never settles, so an
  \<open>await\<close> on it never returns.
\<close>

datatype 'a promise = Pending | Fulfilled 'a | Rejected js_error

subsection \<open>Strings of the platform\<close>

text \<open>
  \<open>String.prototype.trim\<close> and \<open>String.prototype.toLowerCase\<close> are functions of the
  platform, defined over all of Unicode; the model takes them from the environment
  (\<open>trim\<close> and \<open>toLowerCase\<close> of \<open>idb_env\<close> below) and never looks inside them.

  For the worked examples there is one concrete pair: the two functions as they act on
  ASCII strings, where white space is the space and the characters 9 to 13 and the
  capitals are \<open>A\<close> to \<open>Z\<close>.
\<close>

definition ascii_space :: "char \<Rightarrow> bool" where
  "ascii_space ch = (let n = (of_char ch :: nat) in n = 32 \<or> (9 \<le> n \<and> n \<le> 13))"

definition ascii_trim :: "string \<Rightarrow> string" where
  "ascii_trim s = rev (dropWhile ascii_space (rev (dropWhile ascii_space s)))"

definition ascii_lower :: "char \<Rightarrow> char" where
  "ascii_lower ch =
     (let n = (of_char ch :: nat) in if 65 \<le> n \<and> n \<le> 90 then char_of (n + 32) else ch)"

definition ascii_toLowerCase :: "string \<Rightarrow> string" where
  "ascii_toLowerCase s = map ascii_lower s"

subsection \<open>The IndexedDB store: \<open>DictionaryDB\<close> and \<open>storeBatch\<close> (background.js)\<close>

text \<open>
  An entry handed to the store is an object with an optional \<open>word\<close> and an optional
  \<open>data\<close>; the object store \<open>dictionary\<close> has the key path \<open>word\<close>, so it holds one
  record per key. What the platform decides is read from \<open>idb_env\<close>: whether
  \<open>indexedDB.open\<close> fails, for which key a \<open>get\<close> or a \<open>put\<close> request fires
  \<open>onerror\<close> (every request fires one of \<open>onsuccess\<close> and \<open>onerror\<close>), and what
  \<open>trim\<close> and \<open>toLowerCase\<close> return.
\<close>

record entry =
  word :: "string option"
  data :: "json option"

record stored =
  s_word :: string
  s_data :: "json option"
  s_timestamp :: int

type_synonym objectStore = "(string \<times> stored) list"

record idb_env =
  open_error :: "js_error option"
  get_error :: "string \<Rightarrow> js_error option"
  put_error :: "string \<Rightarrow> js_error option"
  trim :: "string \<Rightarrow> string"
  toLowerCase :: "string \<Rightarrow> string"

text \<open>\<open>word.trim().toLowerCase()\<close>, the clean word.\<close>

definition cleanWord :: "idb_env \<Rightarrow> string \<Rightarrow> string" where
  "cleanWord env w = toLowerCase env (trim env w)"

text \<open>The platform of the worked examples: ASCII strings, and an IndexedDB without faults.\<close>

definition ascii_idb :: idb_env where
  "ascii_idb =
     \<lparr>open_error = None, get_error = (\<lambda>k. None), put_error = (\<lambda>k. None),
      trim = ascii_trim, toLowerCase = ascii_toLowerCase\<rparr>"

text \<open>\<open>!entry.word\<close> holds for a missing and for an empty word.\<close>

definition has_word :: "entry \<Rightarrow> bool" where
  "has_word e = (case word e of None \<Rightarrow> False | Some w \<Rightarrow> w \<noteq> [])"

text \<open>\<open>entry.word\<close> where the code has already checked \<open>has_word\<close>.\<close>

definition word_of :: "entry \<Rightarrow> string" where
  "word_of e = (case word e of None \<Rightarrow> [] | Some w \<Rightarrow> w)"

text \<open>\<open>entry.data || entry\<close>: the data when it is truthy, else the entry object itself.\<close>

definition entry_json :: "entry \<Rightarrow> json" where
  "entry_json e =
     JObj ((case word e of None \<Rightarrow> [] | Some w \<Rightarrow> [(''word'', JStr w)]) @
           (case data e of None \<Rightarrow> [] | Some d \<Rightarrow> [(''data'', d)]))"

definition data_or_entry :: "entry \<Rightarrow> json" where
  "data_or_entry e =
     (case data e of None \<Rightarrow> entry_json e | Some d \<Rightarrow> if truthy d then d else entry_json e)"

text \<open>
  A \<open>DictionaryDB\<close> object by its \<open>initPromise\<close>: not yet created (\<open>Fresh\<close>), fulfilled
  (\<open>Ready\<close>) or rejected (\<open>Broken\<close>). \<open>init()\<close> returns the memoised promise when there
  is one, and opens the database otherwise.
\<close>

datatype DictionaryDB = Fresh | Ready | Broken js_error

definition DictionaryDB_init :: "idb_env \<Rightarrow> DictionaryDB \<Rightarrow> js_error option \<times> DictionaryDB" where
  "DictionaryDB_init env d =
     (case d of
        Fresh \<Rightarrow> (case open_error env of None \<Rightarrow> (None, Ready) | Some e \<Rightarrow> (Some e, Broken e))
      | Ready \<Rightarrow> (None, Ready)
      | Broken e \<Rightarrow> (Some e, Broken e))"

definition DictionaryDB_get ::
  "idb_env \<Rightarrow> string \<Rightarrow> DictionaryDB \<Rightarrow> objectStore \<Rightarrow> stored option promise \<times> DictionaryDB" where
  "DictionaryDB_get env w d st =
     (case DictionaryDB_init env d of
        (Some e, d') \<Rightarrow> (Rejected e, d')
      | (None, d') \<Rightarrow>
          (case get_error env (cleanWord env w) of
             Some e \<Rightarrow> (Rejected e, d')
           | None \<Rightarrow> (Fulfilled (map_of st (cleanWord env w)), d')))"

text \<open>\<open>{...entry, word: cleanWord, timestamp: Date.now()}\<close>\<close>

definition entryToStore :: "idb_env \<Rightarrow> int \<Rightarrow> entry \<Rightarrow> stored" where
  "entryToStore env now e =
     \<lparr>s_word = cleanWord env (word_of e), s_data = data e, s_timestamp = now\<rparr>"

definition DictionaryDB_set ::
  "idb_env \<Rightarrow> int \<Rightarrow> entry \<Rightarrow> DictionaryDB \<Rightarrow> objectStore
     \<Rightarrow> unit promise \<times> DictionaryDB \<times> objectStore" where
  "DictionaryDB_set env now e d st =
     (case DictionaryDB_init env d of
        (Some er, d') \<Rightarrow> (Rejected er, d', st)
      | (None, d') \<Rightarrow>
          if \<not> has_word e
          then (Rejected (JsError ''Error'' ''Dictionary entry must have a word property''), d', st)
          else (case put_error env (s_word (entryToStore env now e)) of
                  Some er \<Rightarrow> (Rejected er, d', st)
                | None \<Rightarrow>
                    (Fulfilled (), d',
                     AList.update (s_word (entryToStore env now e)) (entryToStore env now e) st)))"

definition DictionaryDB_count ::
  "idb_env \<Rightarrow> DictionaryDB \<Rightarrow> objectStore \<Rightarrow> nat promise \<times> DictionaryDB" where
  "DictionaryDB_count env d st =
     (case DictionaryDB_init env d of
        (Some e, d') \<Rightarrow> (Rejected e, d')
      | (None, d') \<Rightarrow> (Fulfilled (length st), d'))"

text \<open>
  \<open>setBatch\<close> and \<open>storeBatch\<close> share their body. The executor of the promise keeps
  \<open>completed\<close> and \<open>hasError\<close>; \<open>resolve\<close> and \<open>reject\<close> settle the promise once and are
  ignored afterwards. \<open>entries.forEach\<close> runs synchronously: an entry without a word is
  counted as completed at once, any other entry issues a \<open>put\<close> request. The requests'
  events fire afterwards, in the order of the requests: \<open>onsuccess\<close> counts the entry,
  \<open>onerror\<close> rejects the promise once. Both count against \<open>entries.length\<close> and call
  \<open>resolve\<close> only when the count equals it.
\<close>

record batch =
  completed :: nat
  hasError :: bool
  settled :: "unit promise"
  requests :: "stored list"

definition resolve :: "batch \<Rightarrow> batch" where
  "resolve b = (if settled b = Pending then b\<lparr>settled := Fulfilled ()\<rparr> else b)"

definition reject :: "js_error \<Rightarrow> batch \<Rightarrow> batch" where
  "reject e b = (if settled b = Pending then b\<lparr>settled := Rejected e\<rparr> else b)"

text \<open>\<open>completed++; if (completed === entries.length && !hasError) resolve();\<close>\<close>

definition complete_one :: "nat \<Rightarrow> batch \<Rightarrow> batch" where
  "complete_one n b =
     (let b' = b\<lparr>completed := completed b + 1\<rparr>
      in if completed b' = n \<and> \<not> hasError b' then resolve b' else b')"

text \<open>\<open>if (!hasError) { hasError = true; reject(request.error); }\<close>\<close>

definition onerror :: "js_error \<Rightarrow> batch \<Rightarrow> batch" where
  "onerror e b = (if \<not> hasError b then reject e (b\<lparr>hasError := True\<rparr>) else b)"

definition forEach_entry :: "(entry \<Rightarrow> stored) \<Rightarrow> nat \<Rightarrow> batch \<Rightarrow> entry \<Rightarrow> batch" where
  "forEach_entry mk n b e =
     (if \<not> has_word e then complete_one n b else b\<lparr>requests := requests b @ [mk e]\<rparr>)"

text \<open>
  The events of the requests. A request that succeeds writes its record. The handler of a
  failing request does not call \<open>preventDefault\<close>, so IndexedDB aborts the transaction: the
  requests still waiting fire \<open>onerror\<close> with an \<open>AbortError\<close> and nothing of the batch is
  kept (the second component is then \<open>None\<close>).
\<close>

fun put_events ::
  "idb_env \<Rightarrow> nat \<Rightarrow> stored list \<Rightarrow> batch \<Rightarrow> objectStore \<Rightarrow> batch \<times> objectStore option" where
  "put_events env n [] b st = (b, Some st)"
| "put_events env n (r # rs) b st =
     (case put_error env (s_word r) of
        None \<Rightarrow> put_events env n rs (complete_one n b) (AList.update (s_word r) r st)
      | Some e \<Rightarrow>
          (foldl (\<lambda>b' r'. onerror (JsError ''AbortError'' ''The transaction was aborted'') b')
             (onerror e b) rs,
           None))"

definition run_batch ::
  "idb_env \<Rightarrow> (entry \<Rightarrow> stored) \<Rightarrow> entry list \<Rightarrow> objectStore \<Rightarrow> unit promise \<times> objectStore" where
  "run_batch env mk entries st =
     (let n = length entries;
          b = foldl (forEach_entry mk n)
                \<lparr>completed = 0, hasError = False, settled = Pending, requests = []\<rparr> entries
      in case put_events env n (requests b) b st of
           (b', Some st') \<Rightarrow> (settled b', st')
         | (b', None) \<Rightarrow> (settled b', st))"

definition DictionaryDB_setBatch ::
  "idb_env \<Rightarrow> int \<Rightarrow> entry list \<Rightarrow> DictionaryDB \<Rightarrow> objectStore
     \<Rightarrow> unit promise \<times> DictionaryDB \<times> objectStore" where
  "DictionaryDB_setBatch env now entries d st =
     (case DictionaryDB_init env d of
        (Some e, d') \<Rightarrow> (Rejected e, d', st)
      | (None, d') \<Rightarrow>
          (case run_batch env (entryToStore env now) entries st of (p, st') \<Rightarrow> (p, d', st')))"

text \<open>
  \<open>storeBatch(db, entries)\<close> of the service worker: the caller has opened the database;
  the record is \<open>{word, data: entry.data || entry, timestamp}\<close>.
\<close>

definition storeBatch_record :: "idb_env \<Rightarrow> int \<Rightarrow> entry \<Rightarrow> stored" where
  "storeBatch_record env now e =
     \<lparr>s_word = cleanWord env (word_of e), s_data = Some (data_or_entry e), s_timestamp = now\<rparr>"

definition storeBatch ::
  "idb_env \<Rightarrow> int \<Rightarrow> entry list \<Rightarrow> objectStore \<Rightarrow> unit promise \<times> objectStore" where
  "storeBatch env now entries st = run_batch env (storeBatch_record env now) entries st"

subsection \<open>The remote fetch: \<open>fetchWithTimeout\<close>\<close>

text \<open>
  What the network does with attempt number \<open>n\<close> on a URL is read from the environment:
  a response arrives, \<open>fetch\<close> rejects (a connection failure), or nothing happens before
  the deadline (\<open>Silent\<close>). Each call of \<open>fetchWithTimeout\<close> creates its own
  \<open>AbortController\<close> and its own timer; on a silent network the timer fires, aborts the
  request and \<open>fetch\<close> rejects with an \<open>AbortError\<close>. The trace records the requests sent,
  the aborts and the delays before a retry.

  \<open>response.ok\<close> is a status from 200 to 299; \<open>body\<close> is what \<open>response.json()\<close> gives.
\<close>

record response =
  status :: nat
  body :: "js_error + json"

definition ok :: "response \<Rightarrow> bool" where
  "ok r \<longleftrightarrow> 200 \<le> status r \<and> status r \<le> 299"

datatype outcome = Responds response | Fails js_error | Silent

datatype event =
    CacheGet string | CacheSet string
  | DbInit | DbGet string | DbSet string
  | Fetch string nat | Abort string nat | Delay nat

fun fetchWithTimeout ::
  "(string \<Rightarrow> nat \<Rightarrow> outcome) \<Rightarrow> string \<Rightarrow> nat \<Rightarrow> nat \<Rightarrow> (js_error + response) \<times> event list" where
  "fetchWithTimeout net url n retries =
     (case net url n of
        Responds r \<Rightarrow> (Inr r, [Fetch url n])
      | Silent \<Rightarrow> (Inl (JsError ''Error'' ''Request timeout''), [Fetch url n, Abort url n])
      | Fails e \<Rightarrow>
          if err_name e = ''AbortError''
          then (Inl (JsError ''Error'' ''Request timeout''), [Fetch url n])
          else (case retries of
                  0 \<Rightarrow> (Inl e, [Fetch url n])
                | Suc r \<Rightarrow>
                    (case fetchWithTimeout net url (Suc n) r of
                       (res, tr) \<Rightarrow> (res, [Fetch url n, Delay 1000] @ tr))))"

declare fetchWithTimeout.simps [simp del]

definition is_Fetch :: "event \<Rightarrow> bool" where
  "is_Fetch ev = (case ev of Fetch u n \<Rightarrow> True | _ \<Rightarrow> False)"

text \<open>The number of requests sent; the retries are the requests after the first.\<close>

definition attempts :: "event list \<Rightarrow> nat" where
  "attempts tr = length (filter is_Fetch tr)"

subsection \<open>\<open>DictionaryManager\<close>\<close>

text \<open>
  The manager holds the hot cache, the \<open>DictionaryDB\<close> object (\<open>None\<close> for \<open>null\<close>) and
  the API settings; the timeout in milliseconds is behind \<open>Silent\<close>. The environment
  says whether \<open>window.QuickDefineDB\<close> is defined, and carries \<open>encodeURIComponent\<close>.
\<close>

record manager =
  hotCache :: "json SimpleCache"
  db :: "DictionaryDB option"
  apiUrl :: string
  apiRetries :: nat

record env =
  QuickDefineDB_loaded :: bool
  idb :: idb_env
  encodeURIComponent :: "string \<Rightarrow> string"
  net :: "string \<Rightarrow> nat \<Rightarrow> outcome"

fun digits :: "nat \<Rightarrow> string" where
  "digits n =
     (if n < 10 then [char_of (48 + n)] else digits (n div 10) @ [char_of (48 + n mod 10)])"

declare digits.simps [simp del]

datatype api_result = ApiData json | ApiError string

text \<open>
  \<open>fetchFromAPI\<close> returns \<open>{data}\<close>, \<open>{error: 'not_found'}\<close> or \<open>{error: 'timeout'}\<close>, or
  throws. Its own controller and timer reach no request: \<open>fetchWithTimeout\<close> replaces the
  \<open>signal\<close> of the options by the signal of its own controller. The \<open>catch\<close> block sees
  what \<open>fetchWithTimeout\<close> throws, the \<open>API error\<close> thrown for a status that is neither
  2xx nor 404, and what \<open>response.json()\<close> throws.
\<close>

definition fetchFromAPI :: "env \<Rightarrow> manager \<Rightarrow> string \<Rightarrow> (js_error + api_result) \<times> event list" where
  "fetchFromAPI env m w =
     (let url = apiUrl m @ ''/'' @ encodeURIComponent env w
      in case fetchWithTimeout (net env) url 0 (apiRetries m) of
           (Inl e, tr) \<Rightarrow>
             (if err_name e = ''AbortError'' then Inr (ApiError ''timeout'') else Inl e, tr)
         | (Inr r, tr) \<Rightarrow>
             if \<not> ok r
             then (if status r = 404 then (Inr (ApiError ''not_found''), tr)
                   else (Inl (JsError ''Error'' (''API error: '' @ digits (status r))), tr))
             else (case body r of
                     Inl e \<Rightarrow>
                       (if err_name e = ''AbortError'' then Inr (ApiError ''timeout'') else Inl e, tr)
                   | Inr d \<Rightarrow> (Inr (ApiData d), tr)))"

definition formatErrorMessage :: "js_error \<Rightarrow> string" where
  "formatErrorMessage e =
     (if err_message e = [] then ''An unexpected error occurred'' else err_message e)"

text \<open>
  \<open>initDB\<close>: nothing without the class; otherwise a manager without a database creates
  one and initialises it, and goes back to \<open>null\<close> when that fails.
\<close>

definition initDB :: "env \<Rightarrow> manager \<Rightarrow> manager" where
  "initDB env m =
     (if \<not> QuickDefineDB_loaded env then m
      else case db m of
             Some d \<Rightarrow> m
           | None \<Rightarrow>
               (case DictionaryDB_init (idb env) Fresh of
                  (None, d) \<Rightarrow> m\<lparr>db := Some d\<rparr>
                | (Some e, d) \<Rightarrow> m\<lparr>db := None\<rparr>))"

datatype source = hot_cache | indexeddb | api

text \<open>The object returned by \<open>getDefinition\<close>, a field being \<open>None\<close> when it is not set.\<close>

record result =
  r_data :: "json option"
  r_source :: "source option"
  r_error :: "string option"
  r_message :: "string option"

definition found :: "json \<Rightarrow> source \<Rightarrow> result" where
  "found d s = \<lparr>r_data = Some d, r_source = Some s, r_error = None, r_message = None\<rparr>"

definition of_api_result :: "api_result \<Rightarrow> result" where
  "of_api_result a =
     (case a of
        ApiData d \<Rightarrow> \<lparr>r_data = Some d, r_source = None, r_error = None, r_message = None\<rparr>
      | ApiError k \<Rightarrow> \<lparr>r_data = None, r_source = None, r_error = Some k, r_message = None\<rparr>)"

definition network_failure :: "js_error \<Rightarrow> result" where
  "network_failure e =
     \<lparr>r_data = None, r_source = None, r_error = Some ''network'',
      r_message = Some (formatErrorMessage e)\<rparr>"

text \<open>
  Layer 2 of \<open>getDefinition\<close>: \<open>if (this.db) { try { ... } catch { ... } }\<close>. A hit is a
  record with truthy data; a rejected lookup is logged and counts as a miss.
\<close>

definition lookupDB ::
  "env \<Rightarrow> string \<Rightarrow> manager \<Rightarrow> objectStore \<Rightarrow> json option \<times> manager \<times> event list" where
  "lookupDB env cw m st =
     (case db m of
        None \<Rightarrow> (None, m, [])
      | Some d \<Rightarrow>
          (case DictionaryDB_get (idb env) cw d st of
             (Fulfilled (Some rec), d') \<Rightarrow>
               (case s_data rec of
                  Some dt \<Rightarrow> (if truthy dt then Some dt else None, m\<lparr>db := Some d'\<rparr>, [DbGet cw])
                | None \<Rightarrow> (None, m\<lparr>db := Some d'\<rparr>, [DbGet cw]))
           | (_, d') \<Rightarrow> (None, m\<lparr>db := Some d'\<rparr>, [DbGet cw])))"

text \<open>
  The write of a fetched definition into IndexedDB:
  \<open>if (this.db) { try { await this.db.set(...) } catch { ... } }\<close>. A rejection is logged.
\<close>

definition cacheInDB ::
  "env \<Rightarrow> int \<Rightarrow> string \<Rightarrow> json \<Rightarrow> manager \<Rightarrow> objectStore \<Rightarrow> manager \<times> objectStore \<times> event list" where
  "cacheInDB env now cw d m st =
     (case db m of
        None \<Rightarrow> (m, st, [])
      | Some h \<Rightarrow>
          (case DictionaryDB_set (idb env) now \<lparr>word = Some cw, data = Some d\<rparr> h st of
             (p, h', st') \<Rightarrow> (m\<lparr>db := Some h'\<rparr>, st', [DbSet cw])))"

text \<open>
  Layer 3 of \<open>getDefinition\<close>: the fetch from the API inside \<open>try\<close>. Truthy data is
  set in the hot cache and written to IndexedDB, and returned with the source \<open>api\<close>;
  any other result of \<open>fetchFromAPI\<close> is returned as it is; what \<open>fetchFromAPI\<close>
  throws becomes \<open>{error: 'network', message}\<close>.
\<close>

definition fetchLayer ::
  "env \<Rightarrow> int \<Rightarrow> string \<Rightarrow> manager \<Rightarrow> objectStore
     \<Rightarrow> result \<times> manager \<times> objectStore \<times> event list" where
  "fetchLayer env now cw m st =
     (case fetchFromAPI env m cw of
        (Inl e, tr) \<Rightarrow> (network_failure e, m, st, tr)
      | (Inr (ApiError k), tr) \<Rightarrow> (of_api_result (ApiError k), m, st, tr)
      | (Inr (ApiData d), tr) \<Rightarrow>
          if truthy d
          then (case cacheInDB env now cw d
                       (m\<lparr>hotCache := SimpleCache_set now (''word_'' @ cw) d (hotCache m)\<rparr>) st of
                  (m', st', tr') \<Rightarrow>
                    (found d api, m', st', tr @ [CacheSet (''word_'' @ cw)] @ tr'))
          else (of_api_result (ApiData d), m, st, tr))"

text \<open>
  \<open>getDefinition(word)\<close>: the hot cache under the key \<open>word_\<close> followed by the clean word,
  then IndexedDB, then the API. It returns the result, the manager and the object store
  as the call leaves them, and the trace of the tiers it touched. A value of the hot cache
  counts as a hit when it is truthy.
\<close>

definition hotCacheResult :: "env \<Rightarrow> int \<Rightarrow> string \<Rightarrow> manager \<Rightarrow> json option" where
  "hotCacheResult env now w m =
     (case fst (SimpleCache_get now (''word_'' @ cleanWord (idb env) w) (hotCache m)) of
        None \<Rightarrow> None
      | Some v \<Rightarrow> if truthy v then Some v else None)"

definition afterHotCache :: "env \<Rightarrow> int \<Rightarrow> string \<Rightarrow> manager \<Rightarrow> manager" where
  "afterHotCache env now w m =
     m\<lparr>hotCache := snd (SimpleCache_get now (''word_'' @ cleanWord (idb env) w) (hotCache m))\<rparr>"

definition getDefinition ::
  "env \<Rightarrow> int \<Rightarrow> string \<Rightarrow> manager \<Rightarrow> objectStore
     \<Rightarrow> result \<times> manager \<times> objectStore \<times> event list" where
  "getDefinition env now w m st =
     (let cw = cleanWord (idb env) w;
          key = ''word_'' @ cw
      in case hotCacheResult env now w m of
           Some v \<Rightarrow> (found v hot_cache, afterHotCache env now w m, st, [CacheGet key])
         | None \<Rightarrow>
             (case lookupDB env cw (initDB env (afterHotCache env now w m)) st of
                (Some dt, m3, tr2) \<Rightarrow>
                  (found dt indexeddb,
                   m3\<lparr>hotCache := SimpleCache_set now key dt (hotCache m3)\<rparr>, st,
                   [CacheGet key, DbInit] @ tr2 @ [CacheSet key])
              | (None, m3, tr2) \<Rightarrow>
                  (case fetchLayer env now cw m3 st of
                     (res, m', st', tr3) \<Rightarrow> (res, m', st', [CacheGet key, DbInit] @ tr2 @ tr3))))"

subsection \<open>\<open>preloadDictionary\<close>\<close>

text \<open>
  The batch size is the constant 100 of the function body. Each entry of a batch is
  formatted to \<open>{word: entry.word?.trim().toLowerCase() || '', data: entry.data || entry}\<close>.
  The loop awaits \<open>setBatch\<close> for the slice from \<open>i\<close>, adds the length of the slice to
  \<open>processed\<close>, calls \<open>onProgress(processed, total)\<close> when a callback was given, and
  goes on with \<open>i + batchSize\<close>. A rejected \<open>setBatch\<close> ends the loop with its error; on
  a promise that never settles the loop never goes on. The log records, in their order,
  the calls of \<open>setBatch\<close> with the batch passed and the calls of \<open>onProgress\<close> with
  their two arguments.
\<close>

definition batchSize :: nat where
  "batchSize = 100"

definition formatEntry :: "idb_env \<Rightarrow> entry \<Rightarrow> entry" where
  "formatEntry env e =
     \<lparr>word = Some (case word e of None \<Rightarrow> [] | Some w \<Rightarrow> cleanWord env w),
      data = Some (data_or_entry e)\<rparr>"

datatype preload_event = SetBatch "entry list" | OnProgress nat nat

function preload_loop ::
  "idb_env \<Rightarrow> int \<Rightarrow> entry list \<Rightarrow> bool \<Rightarrow> nat \<Rightarrow> nat \<Rightarrow> DictionaryDB \<Rightarrow> objectStore
     \<Rightarrow> preload_event list
     \<Rightarrow> unit promise \<times> DictionaryDB \<times> objectStore \<times> preload_event list" where
  "preload_loop env now entries onProgress i processed d st log =
     (if i < length entries
      then (case DictionaryDB_setBatch env now
                   (map (formatEntry env) (take batchSize (drop i entries))) d st of
              (Fulfilled u, d', st') \<Rightarrow>
                preload_loop env now entries onProgress (i + batchSize)
                  (processed + length (take batchSize (drop i entries))) d' st'
                  (log @ [SetBatch (map (formatEntry env) (take batchSize (drop i entries)))]
                     @ (if onProgress
                        then [OnProgress (processed + length (take batchSize (drop i entries)))
                                (length entries)]
                        else []))
            | (Pending, d', st') \<Rightarrow>
                (Pending, d', st',
                 log @ [SetBatch (map (formatEntry env) (take batchSize (drop i entries)))])
            | (Rejected e, d', st') \<Rightarrow>
                (Rejected e, d', st',
                 log @ [SetBatch (map (formatEntry env) (take batchSize (drop i entries)))]))
      else (Fulfilled (), d, st, log))"
  by pat_completeness auto
termination
  by (relation "measure (\<lambda>(env, now, entries, onProgress, i, rest). length entries - i)")
     (auto simp: batchSize_def)

definition preloadDictionary ::
  "env \<Rightarrow> int \<Rightarrow> entry list \<Rightarrow> bool \<Rightarrow> manager \<Rightarrow> objectStore
     \<Rightarrow> unit promise \<times> manager \<times> objectStore \<times> preload_event list" where
  "preloadDictionary env now entries onProgress m st =
     (let m1 = initDB env m
      in case db m1 of
           None \<Rightarrow> (Rejected (JsError ''Error'' ''IndexedDB not available''), m1, st, [])
         | Some d \<Rightarrow>
             (case preload_loop (idb env) now entries onProgress 0 0 d st [] of
                (p, d', st', log) \<Rightarrow> (p, m1\<lparr>db := Some d'\<rparr>, st', log)))"

subsection \<open>Notions used in the statements\<close>

text \<open>
  A connection failure on attempt \<open>j\<close>: \<open>fetch\<close> rejects with an error that is not an
  \<open>AbortError\<close>. \<open>retry_prefix url n k\<close> is the trace of \<open>k\<close> such attempts from attempt
  \<open>n\<close> on, each followed by the delay of one second.
\<close>

definition transient :: "(string \<Rightarrow> nat \<Rightarrow> outcome) \<Rightarrow> string \<Rightarrow> nat \<Rightarrow> bool" where
  "transient nw url j = (case nw url j of Fails e \<Rightarrow> err_name e \<noteq> ''AbortError'' | _ \<Rightarrow> False)"

primrec retry_prefix :: "string \<Rightarrow> nat \<Rightarrow> nat \<Rightarrow> event list" where
  "retry_prefix url n 0 = []"
| "retry_prefix url n (Suc k) = [Fetch url n, Delay 1000] @ retry_prefix url (Suc n) k"

text \<open>Neither the hot cache nor IndexedDB has the word: the call goes on to the API.\<close>

definition misses :: "env \<Rightarrow> int \<Rightarrow> string \<Rightarrow> manager \<Rightarrow> objectStore \<Rightarrow> bool" where
  "misses env now w m st \<longleftrightarrow>
     hotCacheResult env now w m = None \<and>
     fst (lookupDB env (cleanWord (idb env) w) (initDB env (afterHotCache env now w m)) st) = None"

text \<open>
  The store as the writes leave it: the keys are distinct, and each record is stored under
  its own word, which is a clean word.
\<close>

definition normalized_store :: "idb_env \<Rightarrow> objectStore \<Rightarrow> bool" where
  "normalized_store env st \<longleftrightarrow>
     distinct (map fst st) \<and> (\<forall>(k, r) \<in> set st. s_word r = k \<and> cleanWord env k = k)"

text \<open>
  What the statements use of \<open>trim\<close> and \<open>toLowerCase\<close>: the clean form of the empty
  word is empty, and cleaning a clean word changes nothing.
\<close>

definition normalising :: "idb_env \<Rightarrow> bool" where
  "normalising env \<longleftrightarrow>
     cleanWord env [] = [] \<and> (\<forall>w. cleanWord env (cleanWord env w) = cleanWord env w)"

text \<open>
  The first fault among the \<open>put\<close> requests of a batch, the number of entries without a
  word, and the store after all the requests of a batch have succeeded.
\<close>

definition first_fault :: "idb_env \<Rightarrow> stored list \<Rightarrow> js_error option" where
  "first_fault env rs =
     (case filter (\<lambda>r. put_error env (s_word r) \<noteq> None) rs of
        [] \<Rightarrow> None
      | r # _ \<Rightarrow> put_error env (s_word r))"

definition skipped :: "entry list \<Rightarrow> nat" where
  "skipped es = length (filter (\<lambda>e. \<not> has_word e) es)"

definition put_all :: "objectStore \<Rightarrow> stored list \<Rightarrow> objectStore" where
  "put_all st rs = foldl (\<lambda>s r. AList.update (s_word r) r s) st rs"

text \<open>
  For \<open>preloadDictionary\<close>: the records written for a list of entries and the clean words
  they are written under; batch number \<open>j\<close> (from 0) of a list, the call of
  \<open>onProgress\<close> after it for a list of \<open>n\<close> entries, and the events of the batch in
  the log; the calls of \<open>onProgress\<close> and the batches passed to \<open>setBatch\<close> in a log.
\<close>

definition preload_records :: "idb_env \<Rightarrow> int \<Rightarrow> entry list \<Rightarrow> stored list" where
  "preload_records env now es =
     map (entryToStore env now) (filter has_word (map (formatEntry env) es))"

definition preload_words :: "idb_env \<Rightarrow> entry list \<Rightarrow> string list" where
  "preload_words env es = filter (\<lambda>k. k \<noteq> []) (map (\<lambda>e. cleanWord env (word_of e)) es)"

definition slice :: "entry list \<Rightarrow> nat \<Rightarrow> entry list" where
  "slice es j = take batchSize (drop (j * batchSize) es)"

definition progress_call :: "nat \<Rightarrow> nat \<Rightarrow> nat \<times> nat" where
  "progress_call n j = (min ((j + 1) * batchSize) n, n)"

definition batch_events :: "idb_env \<Rightarrow> entry list \<Rightarrow> bool \<Rightarrow> nat \<Rightarrow> preload_event list" where
  "batch_events env es onProgress j =
     SetBatch (map (formatEntry env) (slice es j))
       # (if onProgress
          then [OnProgress (fst (progress_call (length es) j)) (snd (progress_call (length es) j))]
          else [])"

fun calls_of :: "preload_event list \<Rightarrow> (nat \<times> nat) list" where
  "calls_of [] = []"
| "calls_of (SetBatch b # evs) = calls_of evs"
| "calls_of (OnProgress p t # evs) = (p, t) # calls_of evs"

fun batches_of :: "preload_event list \<Rightarrow> entry list list" where
  "batches_of [] = []"
| "batches_of (SetBatch b # evs) = b # batches_of evs"
| "batches_of (OnProgress p t # evs) = batches_of evs"

section \<open>Properties\<close>

subsection \<open>The hot cache\<close>

lemma update_fresh: "k \<notin> fst ` set m \<Longrightarrow> AList.update k v m = m @ [(k, v)]"
  by (induction m) auto

lemma update_after_delete:
  "AList.update k v (AList.delete k m) = AList.delete k m @ [(k, v)]"
  by (rule update_fresh) (rule delete_notin_dom)

lemma delete_hd: "distinct (map fst ((k, x) # m)) \<Longrightarrow> AList.delete k ((k, x) # m) = m"
  by (simp add: AList.delete_eq) (metis (mono_tags, lifting) filter_True fst_conv image_eqI case_prod_beta)

lemma delete_firstKey:
  "distinct (map fst m) \<Longrightarrow>
   (case firstKey m of None \<Rightarrow> m | Some k \<Rightarrow> AList.delete k m) = tl m"
  by (cases m) (auto simp: firstKey_def delete_hd simp del: AList.delete_eq)

lemma set_new_key:
  assumes "distinct (map fst (cache c))" "key \<notin> fst ` set (cache c)" "length (cache c) \<ge> maxSize c"
  shows "cache (SimpleCache_set now key v c) = tl (cache c) @ [(key, \<lparr>item_value = v, timestamp = now\<rparr>)]"
proof -
  have "key \<notin> fst ` set (tl (cache c))" using assms(2) by (cases "cache c") auto
  then show ?thesis using assms
    by (simp add: SimpleCache_set_def delete_firstKey update_fresh)
qed

lemma last_access_snoc:
  "last_access (ks @ [x]) k = (if x = k then Suc (length ks) else last_access ks k)"
  by (simp add: last_access_def)

lemma last_access_le: "last_access ks k \<le> length ks"
  unfolding last_access_def by (metis length_dropWhile_le length_rev)

lemma sorted_wrt_snoc_key:
  assumes "sorted_wrt (\<lambda>a b. last_access ks a < last_access ks b) xs" "k \<notin> set xs"
  shows "sorted_wrt (\<lambda>a b. last_access (ks @ [k]) a < last_access (ks @ [k]) b) (xs @ [k])"
proof -
  have "sorted_wrt (\<lambda>a b. last_access (ks @ [k]) a < last_access (ks @ [k]) b) xs"
    using assms by (auto simp: last_access_snoc intro: sorted_wrt_mono_rel[rotated])
  moreover have "\<forall>a\<in>set xs. last_access (ks @ [k]) a < last_access (ks @ [k]) k"
    using assms(2) last_access_le[of ks] by (auto simp: last_access_snoc less_Suc_eq_le)
  ultimately show ?thesis by (simp add: sorted_wrt_append)
qed

lemma sorted_wrt_other_key:
  assumes "sorted_wrt (\<lambda>a b. last_access ks a < last_access ks b) xs" "k \<notin> set xs"
  shows "sorted_wrt (\<lambda>a b. last_access (ks @ [k]) a < last_access (ks @ [k]) b) xs"
  using assms by (auto simp: last_access_snoc intro: sorted_wrt_mono_rel[rotated])

lemma sorted_wrt_removeAll: "sorted_wrt P xs \<Longrightarrow> sorted_wrt P (removeAll k xs)"
  by (simp add: removeAll_filter_not_eq sorted_wrt_filter)

lemma sorted_wrt_tl: "sorted_wrt P xs \<Longrightarrow> sorted_wrt P (tl xs)"
  by (cases xs) auto

lemma keys_delete: "fst ` set (AList.delete k m) = fst ` set m - {k}"
  by (induction m) auto

lemma lru_inv_get:
  assumes "lru_inv ins ks c"
  shows "lru_inv ins (ks @ [k]) (snd (SimpleCache_get t k c))"
proof (cases "map_of (cache c) k")
  case None
  then have "k \<notin> set (map fst (cache c))" by (simp add: map_of_eq_None_iff)
  with assms None show ?thesis
    by (simp add: lru_inv_def SimpleCache_get_def sorted_wrt_other_key)
next
  case (Some it)
  let ?m = "AList.delete k (cache c)"
  have d: "distinct (map fst ?m)" using assms by (simp add: lru_inv_def distinct_delete)
  have s: "sorted_wrt (\<lambda>a b. last_access ks a < last_access ks b) (map fst ?m)"
    using assms by (simp add: lru_inv_def delete_keys sorted_wrt_removeAll)
  have n: "k \<notin> set (map fst ?m)" by (simp add: keys_delete)
  have sub: "fst ` set ?m \<subseteq> set ins" "k \<in> set ins"
    using assms Some by (auto simp: lru_inv_def keys_delete dest: map_of_SomeD)
  show ?thesis
  proof (cases "t - timestamp it > ttl c")
    case True
    with Some d sub sorted_wrt_other_key[OF s n] show ?thesis
      by (simp add: lru_inv_def SimpleCache_get_def del: AList.delete_eq)
  next
    case False
    with Some d sub n sorted_wrt_snoc_key[OF s n] show ?thesis
      by (simp add: lru_inv_def SimpleCache_get_def update_after_delete del: AList.delete_eq)
  qed
qed

lemma lru_inv_set:
  assumes "lru_inv ins ks c" "k \<notin> set ins"
  shows "lru_inv (ins @ [k]) (ks @ [k]) (SimpleCache_set t k v c)"
proof -
  have nk: "k \<notin> fst ` set (cache c)" using assms by (auto simp: lru_inv_def)
  define m where "m = (if length (cache c) \<ge> maxSize c then tl (cache c) else cache c)"
  have m: "cache (SimpleCache_set t k v c) = m @ [(k, \<lparr>item_value = v, timestamp = t\<rparr>)]"
  proof -
    have "k \<notin> fst ` set m" using nk by (cases "cache c") (auto simp: m_def)
    then have "AList.update k \<lparr>item_value = v, timestamp = t\<rparr> m = m @ [(k, \<lparr>item_value = v, timestamp = t\<rparr>)]"
      by (rule update_fresh)
    moreover have "distinct (map fst (cache c))" using assms(1) by (simp add: lru_inv_def)
    ultimately show ?thesis
      by (cases "maxSize c \<le> length (cache c)") (simp_all add: SimpleCache_set_def m_def delete_firstKey)
  qed
  have sub: "set m \<subseteq> set (cache c)" by (cases "cache c") (auto simp: m_def)
  have d: "distinct (map fst m)" using assms(1) by (auto simp: m_def lru_inv_def distinct_tl map_tl)
  have s: "sorted_wrt (\<lambda>a b. last_access ks a < last_access ks b) (map fst m)"
    using assms(1) by (auto simp: m_def lru_inv_def map_tl sorted_wrt_tl)
  have n: "k \<notin> set (map fst m)" using nk sub by auto
  show ?thesis using d n sub assms(1) sorted_wrt_snoc_key[OF s n]
    by (auto simp: lru_inv_def m)
qed

lemma inserted_snoc:
  "inserted (ops @ [(t, Get k)]) = inserted ops"
  "inserted (ops @ [(t, Set k v)]) = inserted ops @ [k]"
  by (simp_all add: inserted_def)

lemma lru_inv_run:
  assumes "distinct (inserted ops)"
  shows "lru_inv (inserted ops) (accessed ops) (cache_run (SimpleCache_new n t) ops)"
  using assms
proof (induction ops rule: rev_induct)
  case Nil
  show ?case by (simp add: lru_inv_def cache_run_def SimpleCache_new_def)
next
  case (snoc x ops)
  obtain tm op where x: "x = (tm, op)" by (cases x)
  show ?case
  proof (cases op)
    case (Get k)
    with snoc x show ?thesis
      using lru_inv_get[of "inserted ops" "accessed ops" _ k tm]
      by (simp add: inserted_snoc cache_run_def accessed_def)
  next
    case (Set k v)
    with snoc x show ?thesis
      using lru_inv_set[of "inserted ops" "accessed ops" _ k tm v]
      by (simp add: inserted_snoc cache_run_def accessed_def)
  qed
qed

lemma distinct_get: "distinct (map fst (cache c)) \<Longrightarrow> distinct (map fst (cache (snd (SimpleCache_get now k c))))"
  by (auto simp: SimpleCache_get_def distinct_update distinct_delete simp del: AList.delete_eq split: option.splits)

lemma distinct_set: "distinct (map fst (cache c)) \<Longrightarrow> distinct (map fst (cache (SimpleCache_set now k v c)))"
  by (auto simp: SimpleCache_set_def Let_def distinct_update distinct_delete simp del: AList.delete_eq split: option.splits)

lemma config_get [simp]:
  "maxSize (snd (SimpleCache_get now k c)) = maxSize c" "ttl (snd (SimpleCache_get now k c)) = ttl c"
  by (simp_all add: SimpleCache_get_def split: option.splits)

lemma config_set [simp]:
  "maxSize (SimpleCache_set now k v c) = maxSize c" "ttl (SimpleCache_set now k v c) = ttl c"
  by (simp_all add: SimpleCache_set_def Let_def)

lemma config_run [simp]:
  "maxSize (cache_run c ops) = maxSize c" "ttl (cache_run c ops) = ttl c"
proof -
  have "maxSize (cache_run c ops) = maxSize c \<and> ttl (cache_run c ops) = ttl c"
  proof (induction ops rule: rev_induct)
    case Nil
    show ?case by (simp add: cache_run_def)
  next
    case (snoc x ops)
    obtain tm op where "x = (tm, op)" by (cases x)
    with snoc show ?case by (cases op) (simp_all add: cache_run_def)
  qed
  then show "maxSize (cache_run c ops) = maxSize c" "ttl (cache_run c ops) = ttl c" by simp_all
qed

text \<open>
  Claim C4. Take any history of \<open>get\<close> and \<open>set\<close> calls on a new cache of capacity
  \<open>N > 0\<close> in which every \<open>set\<close> inserts a key not inserted before, and let the cache hold
  \<open>N\<close> entries. Inserting one more new key removes exactly the first entry of the map and
  appends the new one, and the removed key is the least recently used: its last access
  (a \<open>set\<close> or a \<open>get\<close>, which moves a live entry to the end) is older than that of every
  entry that stays. The scenario of the specification, with capacity 2 and a time to live
  of 1000: after \<open>set a 1\<close>, \<open>set b 2\<close>, \<open>get a\<close>, \<open>set c 3\<close> the cache holds \<open>a\<close> and
  \<open>c\<close>; \<open>get b\<close> is absent, \<open>get a\<close> is 1 and \<open>get c\<close> is 3.
\<close>

theorem lru_eviction:
  fixes ops :: "(int \<times> 'v cache_op) list" and v :: 'v
  assumes "distinct (inserted (ops @ [(now, Set k v)]))"
    and "c = cache_run (SimpleCache_new N t) ops"
    and "length (cache c) = N" and "0 < N"
  shows "(\<exists>e it rest. cache c = (e, it) # rest
          \<and> cache (cache_run (SimpleCache_new N t) (ops @ [(now, Set k v)])) = rest @ [(k, \<lparr>item_value = v, timestamp = now\<rparr>)]
          \<and> (\<forall>k' \<in> fst ` set rest. last_access (accessed ops) e < last_access (accessed ops) k'))
    \<and> (let c4 = cache_run (SimpleCache_new 2 1000)
                   [(0, Set ''a'' (1::nat)), (1, Set ''b'' 2), (2, Get ''a''), (3, Set ''c'' 3)]
        in map fst (cache c4) = [''a'', ''c'']
         \<and> fst (SimpleCache_get 4 ''b'' c4) = None
         \<and> fst (SimpleCache_get 5 ''a'' (cache_run c4 [(4, Get ''b'')])) = Some 1
         \<and> fst (SimpleCache_get 6 ''c'' (cache_run c4 [(4, Get ''b''), (5, Get ''a'')])) = Some 3)"
proof -
  have inv: "lru_inv (inserted ops) (accessed ops) c"
    using assms(1,2) lru_inv_run[of ops N t] by (simp add: inserted_snoc)
  have knew: "k \<notin> fst ` set (cache c)" using inv assms(1) by (auto simp: lru_inv_def inserted_snoc)
  obtain e it rest where c: "cache c = (e, it) # rest" using assms(3,4) by (cases "cache c") auto
  have "cache (SimpleCache_set now k v c) = tl (cache c) @ [(k, \<lparr>item_value = v, timestamp = now\<rparr>)]"
    using inv knew assms(2,3) by (intro set_new_key) (simp_all add: lru_inv_def SimpleCache_new_def)
  then have 1: "cache (cache_run (SimpleCache_new N t) (ops @ [(now, Set k v)])) = rest @ [(k, \<lparr>item_value = v, timestamp = now\<rparr>)]"
    using c assms(2) by (simp add: cache_run_def)
  have 2: "\<forall>k' \<in> fst ` set rest. last_access (accessed ops) e < last_access (accessed ops) k'"
    using inv c by (auto simp: lru_inv_def)
  have 3: "(let c4 = cache_run (SimpleCache_new 2 1000)
                   [(0, Set ''a'' (1::nat)), (1, Set ''b'' 2), (2, Get ''a''), (3, Set ''c'' 3)]
        in map fst (cache c4) = [''a'', ''c'']
         \<and> fst (SimpleCache_get 4 ''b'' c4) = None
         \<and> fst (SimpleCache_get 5 ''a'' (cache_run c4 [(4, Get ''b'')])) = Some 1
         \<and> fst (SimpleCache_get 6 ''c'' (cache_run c4 [(4, Get ''b''), (5, Get ''a'')])) = Some 3)"
    by (simp add: cache_run_def SimpleCache_new_def SimpleCache_set_def SimpleCache_get_def firstKey_def)
  show ?thesis using c 1 2 3 by blast
qed

text \<open>
  The theorem at the scenario: \<open>b\<close>, last used at call 2, goes; \<open>a\<close>, used at call 3, stays.
\<close>

theorem lru_eviction_witness:
  "distinct (inserted [(0, Set ''a'' (1::nat)), (1, Set ''b'' 2), (2, Get ''a''), (3, Set ''c'' 3)])
   \<and> length (cache (cache_run (SimpleCache_new 2 1000) [(0, Set ''a'' (1::nat)), (1, Set ''b'' 2), (2, Get ''a'')])) = 2
   \<and> cache (cache_run (SimpleCache_new 2 1000) [(0, Set ''a'' (1::nat)), (1, Set ''b'' 2), (2, Get ''a''), (3, Set ''c'' 3)])
      = [(''a'', \<lparr>item_value = 1, timestamp = 0\<rparr>), (''c'', \<lparr>item_value = 3, timestamp = 3\<rparr>)]
   \<and> last_access (accessed [(0, Set ''a'' (1::nat)), (1, Set ''b'' 2), (2, Get ''a'')]) ''b'' = 2
   \<and> last_access (accessed [(0, Set ''a'' (1::nat)), (1, Set ''b'' 2), (2, Get ''a'')]) ''a'' = 3"
proof -
  have d: "distinct (inserted ([(0, Set ''a'' (1::nat)), (1, Set ''b'' 2), (2, Get ''a'')] @ [(3, Set ''c'' 3)]))"
    by (simp add: inserted_def)
  have l: "length (cache (cache_run (SimpleCache_new 2 1000) [(0, Set ''a'' (1::nat)), (1, Set ''b'' 2), (2, Get ''a'')])) = 2"
    by (simp add: cache_run_def SimpleCache_new_def SimpleCache_set_def SimpleCache_get_def firstKey_def)
  have la: "last_access (accessed [(0, Set ''a'' (1::nat)), (1, Set ''b'' 2), (2, Get ''a'')]) ''b'' = 2"
     "last_access (accessed [(0, Set ''a'' (1::nat)), (1, Set ''b'' 2), (2, Get ''a'')]) ''a'' = 3"
    by (simp_all add: last_access_def accessed_def)
  from lru_eviction[OF d refl l] d l la show ?thesis
    by (simp add: cache_run_def SimpleCache_new_def SimpleCache_set_def SimpleCache_get_def firstKey_def)
qed

text \<open>
  Claim C2, as the code has it. On a cache at capacity, \<open>set\<close> deletes the first key of
  the map whether or not the key being set is present. So setting a present key \<open>key\<close>
  stores the new value under \<open>key\<close>, and: when \<open>key\<close> is the oldest entry, nothing is
  lost, the keys and the size stay and \<open>key\<close> moves to the end; when it is not, the oldest
  entry is evicted and the size drops by one. Every entry other than \<open>key\<close> and the oldest
  one is unchanged.
\<close>

theorem set_existing_at_capacity:
  fixes c :: "'v SimpleCache"
  assumes "distinct (map fst (cache c))"
    and "length (cache c) \<ge> maxSize c"
    and "key \<in> fst ` set (cache c)"
    and "c' = SimpleCache_set now key v c"
  shows "map_of (cache c') key = Some \<lparr>item_value = v, timestamp = now\<rparr>
    \<and> (firstKey (cache c) = Some key \<longrightarrow>
          cache c' = tl (cache c) @ [(key, \<lparr>item_value = v, timestamp = now\<rparr>)]
          \<and> fst ` set (cache c') = fst ` set (cache c)
          \<and> SimpleCache_size c' = SimpleCache_size c)
    \<and> (firstKey (cache c) \<noteq> Some key \<longrightarrow>
          (\<exists>e. firstKey (cache c) = Some e \<and> map_of (cache c') e = None
             \<and> fst ` set (cache c') = fst ` set (cache c) - {e}
             \<and> Suc (SimpleCache_size c') = SimpleCache_size c))
    \<and> (\<forall>k'. k' \<noteq> key \<and> firstKey (cache c) \<noteq> Some k' \<longrightarrow> map_of (cache c') k' = map_of (cache c) k')"
proof -
  obtain e it rest where c: "cache c = (e, it) # rest" using assms(3) by (cases "cache c") auto
  have fk: "firstKey (cache c) = Some e" by (simp add: c firstKey_def)
  have d: "distinct (map fst rest)" "e \<notin> fst ` set rest" using assms(1) c by auto
  have c': "cache c' = AList.update key \<lparr>item_value = v, timestamp = now\<rparr> rest"
    using assms(1,2,4) delete_firstKey[OF assms(1)] by (simp add: SimpleCache_set_def fk c del: AList.delete_eq)
  have 1: "map_of (cache c') key = Some \<lparr>item_value = v, timestamp = now\<rparr>"
    by (simp add: c' update_conv')
  have 2: "cache c' = tl (cache c) @ [(key, \<lparr>item_value = v, timestamp = now\<rparr>)]
          \<and> fst ` set (cache c') = fst ` set (cache c)
          \<and> SimpleCache_size c' = SimpleCache_size c" if "e = key"
    using that d by (auto simp: c' c update_fresh SimpleCache_size_def)
  have 3: "map_of (cache c') e = None
             \<and> fst ` set (cache c') = fst ` set (cache c) - {e}
             \<and> Suc (SimpleCache_size c') = SimpleCache_size c" if "e \<noteq> key"
  proof -
    from that assms(3) c have "key \<in> fst ` set rest" by auto
    then have "key \<in> set (map fst rest)" by simp
    then have "length (AList.update key \<lparr>item_value = v, timestamp = now\<rparr> rest) = length rest"
      by (metis length_map update_keys)
    moreover have "fst ` set (AList.update key \<lparr>item_value = v, timestamp = now\<rparr> rest) = fst ` set rest"
      using \<open>key \<in> fst ` set rest\<close> by (auto simp: dom_update)
    moreover have "map_of rest e = None" using d(2) by (simp add: map_of_eq_None_iff)
    ultimately show ?thesis using that d(2)
      by (auto simp: c' c SimpleCache_size_def update_conv')
  qed
  have 4: "map_of (cache c') k' = map_of (cache c) k'" if "k' \<noteq> key" "e \<noteq> k'" for k'
    using that by (simp add: c' c update_conv')
  have fk': "firstKey (cache c) = Some k' \<longleftrightarrow> e = k'" for k' by (auto simp: fk)
  have p2: "e = key \<longrightarrow>
          cache c' = tl (cache c) @ [(key, \<lparr>item_value = v, timestamp = now\<rparr>)]
          \<and> fst ` set (cache c') = fst ` set (cache c)
          \<and> SimpleCache_size c' = SimpleCache_size c"
    by (rule impI) (rule 2)
  have p3: "e \<noteq> key \<longrightarrow>
          (\<exists>e'. e = e' \<and> map_of (cache c') e' = None
             \<and> fst ` set (cache c') = fst ` set (cache c) - {e'}
             \<and> Suc (SimpleCache_size c') = SimpleCache_size c)"
    by (rule impI, rule exI[of _ e], rule conjI, rule refl, rule 3)
  have p4: "\<forall>k'. k' \<noteq> key \<and> e \<noteq> k' \<longrightarrow> map_of (cache c') k' = map_of (cache c) k'"
    using 4 by blast
  show ?thesis unfolding fk' by (intro conjI) (rule 1 p2 p3 p4)+
qed

text \<open>
  Claim C2 as stated fails: a cache of capacity 2 holding \<open>a\<close> and \<open>b\<close> loses \<open>a\<close> when
  \<open>b\<close> is overwritten, and its size drops to 1.
\<close>

theorem set_existing_counterexample:
  "\<not> (\<forall>(c :: nat SimpleCache) key v now.
        distinct (map fst (cache c)) \<and> length (cache c) = maxSize c \<and> key \<in> fst ` set (cache c)
        \<longrightarrow> fst ` set (cache (SimpleCache_set now key v c)) = fst ` set (cache c)
            \<and> SimpleCache_size (SimpleCache_set now key v c) = SimpleCache_size c)"
proof
  let ?c = "\<lparr>maxSize = 2, ttl = 1000,
             cache = [(''a'', \<lparr>item_value = 1::nat, timestamp = 0\<rparr>), (''b'', \<lparr>item_value = 2, timestamp = 1\<rparr>)]\<rparr>"
  assume "\<forall>(c :: nat SimpleCache) key v now.
        distinct (map fst (cache c)) \<and> length (cache c) = maxSize c \<and> key \<in> fst ` set (cache c)
        \<longrightarrow> fst ` set (cache (SimpleCache_set now key v c)) = fst ` set (cache c)
            \<and> SimpleCache_size (SimpleCache_set now key v c) = SimpleCache_size c"
  then have "distinct (map fst (cache ?c)) \<and> length (cache ?c) = maxSize ?c \<and> ''b'' \<in> fst ` set (cache ?c)
        \<longrightarrow> fst ` set (cache (SimpleCache_set 2 ''b'' 3 ?c)) = fst ` set (cache ?c)
            \<and> SimpleCache_size (SimpleCache_set 2 ''b'' 3 ?c) = SimpleCache_size ?c"
    by (elim allE)
  then show False
    by (simp add: SimpleCache_set_def SimpleCache_size_def firstKey_def)
qed

text \<open>
  The theorem at that cache: \<open>b\<close> has its new value, \<open>a\<close> is gone, one entry is left.
\<close>

theorem set_existing_at_capacity_witness:
  "map_of (cache (SimpleCache_set 2 ''b'' (3::nat)
      \<lparr>maxSize = 2, ttl = 1000,
       cache = [(''a'', \<lparr>item_value = 1, timestamp = 0\<rparr>), (''b'', \<lparr>item_value = 2, timestamp = 1\<rparr>)]\<rparr>)) ''b''
     = Some \<lparr>item_value = 3, timestamp = 2\<rparr>
   \<and> map_of (cache (SimpleCache_set 2 ''b'' (3::nat)
      \<lparr>maxSize = 2, ttl = 1000,
       cache = [(''a'', \<lparr>item_value = 1, timestamp = 0\<rparr>), (''b'', \<lparr>item_value = 2, timestamp = 1\<rparr>)]\<rparr>)) ''a''
     = None
   \<and> SimpleCache_size (SimpleCache_set 2 ''b'' (3::nat)
      \<lparr>maxSize = 2, ttl = 1000,
       cache = [(''a'', \<lparr>item_value = 1, timestamp = 0\<rparr>), (''b'', \<lparr>item_value = 2, timestamp = 1\<rparr>)]\<rparr>) = 1"
proof -
  let ?c = "\<lparr>maxSize = 2, ttl = 1000,
       cache = [(''a'', \<lparr>item_value = 1::nat, timestamp = 0\<rparr>), (''b'', \<lparr>item_value = 2, timestamp = 1\<rparr>)]\<rparr>"
  have h: "distinct (map fst (cache ?c))" "length (cache ?c) \<ge> maxSize ?c" "''b'' \<in> fst ` set (cache ?c)"
    by simp_all
  have fk: "firstKey (cache ?c) = Some ''a''" by (simp add: firstKey_def)
  from set_existing_at_capacity[OF h refl, of 2 3] show ?thesis
    by (simp add: SimpleCache_set_def SimpleCache_size_def firstKey_def)
qed

lemma ttl_inv_get:
  assumes "map_of (cache c) k = None \<or> map_of (cache c) k = Some it"
  shows "map_of (cache (snd (SimpleCache_get t k' c))) k = None \<or> map_of (cache (snd (SimpleCache_get t k' c))) k = Some it"
  using assms by (auto simp: SimpleCache_get_def update_conv' delete_conv' simp del: AList.delete_eq split: option.splits)

lemma ttl_inv_set:
  assumes "map_of (cache c) k = None \<or> map_of (cache c) k = Some it" "k' \<noteq> k"
  shows "map_of (cache (SimpleCache_set t k' v c)) k = None \<or> map_of (cache (SimpleCache_set t k' v c)) k = Some it"
  using assms by (auto simp: SimpleCache_set_def update_conv' delete_conv' simp del: AList.delete_eq split: option.splits)

lemma ttl_inv_run:
  assumes "map_of (cache c) k = None \<or> map_of (cache c) k = Some it" "k \<notin> set (inserted ops)"
  shows "map_of (cache (cache_run c ops)) k = None \<or> map_of (cache (cache_run c ops)) k = Some it"
  using assms(2)
proof (induction ops rule: rev_induct)
  case Nil
  show ?case using assms(1) by (simp add: cache_run_def)
next
  case (snoc x ops)
  obtain tm op where x: "x = (tm, op)" by (cases x)
  show ?case
  proof (cases op)
    case (Get k')
    with snoc x ttl_inv_get[of "cache_run c ops" k it tm k'] show ?thesis
      by (simp add: cache_run_def inserted_snoc)
  next
    case (Set k' v)
    with snoc x ttl_inv_set[of "cache_run c ops" k it k' tm v] show ?thesis
      by (auto simp add: cache_run_def inserted_snoc)
  qed
qed

lemma get_Some_fresh:
  assumes "SimpleCache_get now k c = (Some v, c')"
  shows "\<exists>it. map_of (cache c) k = Some it \<and> item_value it = v \<and> now - timestamp it \<le> ttl c"
  using assms by (auto simp: SimpleCache_get_def split: option.splits if_splits)

text \<open>
  Claim C8. An entry is set at time \<open>T\<close>; then come any \<open>get\<close> calls, on any keys at any
  times, and \<open>set\<close> calls on other keys. A \<open>get\<close> of the key at a time later than
  \<open>T + ttl\<close> returns absent and leaves the key out of the cache: moving an entry to the end
  keeps its timestamp. And whenever \<open>get\<close> returns a value, the item it read is not older
  than the time to live (\<open>now - timestamp \<le> ttl\<close>, the negation of the expiry test).
\<close>

theorem ttl_expiry:
  fixes c0 :: "'v SimpleCache"
  assumes "k \<notin> set (inserted ops)"
    and "now > T + ttl c0"
    and "c = cache_run (SimpleCache_set T k v c0) ops"
  shows "fst (SimpleCache_get now k c) = None
       \<and> map_of (cache (snd (SimpleCache_get now k c))) k = None
       \<and> (\<forall>(d :: 'v SimpleCache) t key w. fst (SimpleCache_get t key d) = Some w \<longrightarrow>
            (\<exists>it. map_of (cache d) key = Some it \<and> item_value it = w \<and> t - timestamp it \<le> ttl d))"
proof -
  let ?it = "\<lparr>item_value = v, timestamp = T\<rparr>"
  have "map_of (cache (SimpleCache_set T k v c0)) k = Some ?it"
    by (simp add: SimpleCache_set_def Let_def update_conv')
  then have "map_of (cache c) k = None \<or> map_of (cache c) k = Some ?it"
    using ttl_inv_run[OF _ assms(1), of "SimpleCache_set T k v c0" ?it] assms(3) by simp
  moreover have "ttl c = ttl c0" using assms(3) by simp
  ultimately have "fst (SimpleCache_get now k c) = None
       \<and> map_of (cache (snd (SimpleCache_get now k c))) k = None"
    using assms(2) by (auto simp: SimpleCache_get_def delete_conv' simp del: AList.delete_eq)
  moreover have "\<exists>it. map_of (cache d) key = Some it \<and> item_value it = w \<and> t - timestamp it \<le> ttl d"
    if "fst (SimpleCache_get t key d) = Some w" for d :: "'v SimpleCache" and t key w
    using that get_Some_fresh[of t key d w "snd (SimpleCache_get t key d)"] by (metis prod.collapse)
  ultimately show ?thesis by blast
qed

text \<open>
  The theorem at a cache with a time to live of 1000: set at 0, read at 500 and at 1000
  (still returned), absent at 1001.
\<close>

theorem ttl_expiry_witness:
  "''a'' \<notin> set (inserted [(500, Get ''a''), (900, Set ''b'' (2::nat)), (1000, Get ''a'')])
   \<and> (1001::int) > 0 + ttl (SimpleCache_new 2 1000 :: nat SimpleCache)
   \<and> map_of (cache (cache_run (SimpleCache_set 0 ''a'' (1::nat) (SimpleCache_new 2 1000))
        [(500, Get ''a''), (900, Set ''b'' 2), (1000, Get ''a'')])) ''a'' = Some \<lparr>item_value = 1, timestamp = 0\<rparr>
   \<and> fst (SimpleCache_get 1000 ''a'' (cache_run (SimpleCache_set 0 ''a'' (1::nat) (SimpleCache_new 2 1000))
        [(500, Get ''a''), (900, Set ''b'' 2)])) = Some 1
   \<and> fst (SimpleCache_get 1001 ''a'' (cache_run (SimpleCache_set 0 ''a'' (1::nat) (SimpleCache_new 2 1000))
        [(500, Get ''a''), (900, Set ''b'' 2), (1000, Get ''a'')])) = None"
proof -
  have h: "''a'' \<notin> set (inserted [(500, Get ''a''), (900, Set ''b'' (2::nat)), (1000, Get ''a'')])"
    by (simp add: inserted_def)
  have t: "(1001::int) > 0 + ttl (SimpleCache_new 2 1000 :: nat SimpleCache)"
    by (simp add: SimpleCache_new_def)
  have e: "map_of (cache (cache_run (SimpleCache_set 0 ''a'' (1::nat) (SimpleCache_new 2 1000))
        [(500, Get ''a''), (900, Set ''b'' 2), (1000, Get ''a'')])) ''a'' = Some \<lparr>item_value = 1, timestamp = 0\<rparr>"
     "fst (SimpleCache_get 1000 ''a'' (cache_run (SimpleCache_set 0 ''a'' (1::nat) (SimpleCache_new 2 1000))
        [(500, Get ''a''), (900, Set ''b'' 2)])) = Some 1"
    by (simp_all add: cache_run_def SimpleCache_new_def SimpleCache_set_def SimpleCache_get_def firstKey_def)
  from ttl_expiry[OF h t refl, of 1] h t e show ?thesis by simp
qed

subsection \<open>Clean words\<close>

lemma ascii_space_lower: "ascii_space (ascii_lower ch) = ascii_space ch"
proof (cases "65 \<le> (of_char ch :: nat) \<and> (of_char ch :: nat) \<le> 90")
  case False
  then show ?thesis by (auto simp add: ascii_lower_def Let_def)
next
  case True
  have a: "\<not> ascii_space ch" using True by (auto simp: ascii_space_def Let_def)
  have "of_char (char_of (of_char ch + 32 :: nat)) = (of_char ch + 32 :: nat)"
    using True by (simp add: of_char_of)
  then have "\<not> ascii_space (char_of (of_char ch + 32 :: nat))"
    using True by (auto simp: ascii_space_def Let_def)
  with a True show ?thesis by (simp add: ascii_lower_def Let_def)
qed

lemma dropWhile_lower: "dropWhile ascii_space (map ascii_lower s) = map ascii_lower (dropWhile ascii_space s)"
  by (induction s) (simp_all add: ascii_space_lower)

lemma trim_lower: "ascii_trim (ascii_toLowerCase s) = ascii_toLowerCase (ascii_trim s)"
  by (simp add: ascii_trim_def ascii_toLowerCase_def dropWhile_lower rev_map)

lemma dropWhile_hd: "xs = [] \<or> \<not> P (hd xs) \<Longrightarrow> dropWhile P xs = xs"
  by (cases xs) auto

lemma hd_dropWhile': "dropWhile P xs = [] \<or> \<not> P (hd (dropWhile P xs))"
  by (metis hd_dropWhile)

lemma trim_idem: "ascii_trim (ascii_trim s) = ascii_trim s"
proof -
  define t where "t = dropWhile ascii_space s"
  define u where "u = rev (dropWhile ascii_space (rev t))"
  have t: "t = [] \<or> \<not> ascii_space (hd t)" unfolding t_def by (rule hd_dropWhile')
  have "t = u @ rev (takeWhile ascii_space (rev t))"
    unfolding u_def by (metis rev_append rev_rev_ident takeWhile_dropWhile_id)
  then have "u = [] \<or> hd u = hd t" by (metis hd_append2)
  moreover have "u \<noteq> [] \<Longrightarrow> t \<noteq> []" unfolding u_def by auto
  ultimately have "u = [] \<or> \<not> ascii_space (hd u)" using t by auto
  then have 1: "dropWhile ascii_space u = u" by (rule dropWhile_hd)
  have 2: "dropWhile ascii_space (rev u) = rev u" by (simp add: u_def)
  show ?thesis using 1 2 by (simp add: ascii_trim_def t_def[symmetric] u_def[symmetric])
qed

lemma lower_idem: "ascii_lower (ascii_lower ch) = ascii_lower ch"
proof (cases "65 \<le> (of_char ch :: nat) \<and> (of_char ch :: nat) \<le> 90")
  case False
  then show ?thesis by (auto simp add: ascii_lower_def Let_def)
next
  case True
  have "of_char (char_of (of_char ch + 32 :: nat)) = (of_char ch + 32 :: nat)"
    using True by (simp add: of_char_of)
  with True show ?thesis by (simp add: ascii_lower_def Let_def)
qed

lemma ascii_clean_idem:
  "ascii_toLowerCase (ascii_trim (ascii_toLowerCase (ascii_trim w))) = ascii_toLowerCase (ascii_trim w)"
  by (simp add: trim_lower trim_idem) (simp add: ascii_toLowerCase_def lower_idem)

lemma ascii_normalising:
  "trim env = ascii_trim \<Longrightarrow> toLowerCase env = ascii_toLowerCase \<Longrightarrow> normalising env"
  by (simp add: normalising_def cleanWord_def ascii_clean_idem)
     (simp add: ascii_trim_def ascii_toLowerCase_def)

lemma cleanWord_idem: "normalising env \<Longrightarrow> cleanWord env (cleanWord env w) = cleanWord env w"
  by (simp add: normalising_def)

lemma cleanWord_Nil: "normalising env \<Longrightarrow> cleanWord env [] = []"
  by (simp add: normalising_def)

lemma ascii_idb_simps [simp]:
  "open_error ascii_idb = None" "get_error ascii_idb k = None" "put_error ascii_idb k = None"
  "trim ascii_idb = ascii_trim" "toLowerCase ascii_idb = ascii_toLowerCase"
  by (simp_all add: ascii_idb_def)

lemma ascii_idb_normalising: "normalising ascii_idb"
  by (rule ascii_normalising) simp_all

subsection \<open>The store\<close>

lemma normalized_store_update:
  assumes "normalized_store env st" "s_word r = k" "cleanWord env k = k"
  shows "normalized_store env (AList.update k r st)"
proof -
  have "set (AList.update k r st) \<subseteq> insert (k, r) (set st)"
    by (induction st) auto
  then show ?thesis using assms
    by (auto simp: normalized_store_def distinct_update)
qed

lemma normalized_store_unique:
  assumes "normalized_store env st" "k1 \<in> fst ` set st" "k2 \<in> fst ` set st" "cleanWord env k1 = cleanWord env k2"
  shows "k1 = k2"
proof -
  obtain r1 r2 where "(k1, r1) \<in> set st" "(k2, r2) \<in> set st" using assms(2,3) by auto
  then have "cleanWord env k1 = k1" "cleanWord env k2 = k2"
    using assms(1) unfolding normalized_store_def by blast+
  with assms(4) show ?thesis by simp
qed

lemma put_events_normalized:
  assumes "normalized_store env st" "\<forall>r \<in> set rs. cleanWord env (s_word r) = s_word r"
    and "put_events env n rs b st = (b', Some st')"
  shows "normalized_store env st'"
  using assms
proof (induction rs arbitrary: b st)
  case Nil
  then show ?case by simp
next
  case (Cons r rs)
  show ?case
  proof (cases "put_error env (s_word r)")
    case None
    with Cons.prems(3) have pe: "put_events env n rs (complete_one n b) (AList.update (s_word r) r st) = (b', Some st')"
      by simp
    have nz: "normalized_store env (AList.update (s_word r) r st)"
      using Cons.prems(1,2) by (intro normalized_store_update) simp_all
    have rest: "\<forall>r \<in> set rs. cleanWord env (s_word r) = s_word r" using Cons.prems(2) by simp
    show ?thesis by (rule Cons.IH[OF nz rest pe])
  next
    case (Some e)
    with Cons.prems(3) show ?thesis by simp
  qed
qed

lemma requests_forEach:
  "requests (foldl (forEach_entry mk n) b es) = requests b @ map mk (filter has_word es)"
proof (induction es arbitrary: b)
  case Nil
  show ?case by simp
next
  case (Cons e es)
  show ?case
    by (simp add: Cons.IH) (simp add: forEach_entry_def complete_one_def resolve_def Let_def)
qed

lemma run_batch_normalized:
  assumes "normalized_store env st" "\<And>e. cleanWord env (s_word (mk e)) = s_word (mk e)"
  shows "normalized_store env (snd (run_batch env mk entries st))"
proof -
  let ?b = "foldl (forEach_entry mk (length entries))
                \<lparr>completed = 0, hasError = False, settled = Pending, requests = []\<rparr> entries"
  obtain b' r where pe: "put_events env (length entries) (requests ?b) ?b st = (b', r)"
    by (cases "put_events env (length entries) (requests ?b) ?b st")
  show ?thesis
  proof (cases r)
    case None
    with pe assms(1) show ?thesis by (simp add: run_batch_def Let_def)
  next
    case (Some st')
    have "\<forall>r \<in> set (requests ?b). cleanWord env (s_word r) = s_word r"
      using assms(2) by (auto simp: requests_forEach)
    with pe Some assms(1) have "normalized_store env st'"
      by (intro put_events_normalized[where st = st and rs = "requests ?b" and n = "length entries"
            and b = ?b and b' = b' and st' = st']) simp_all
    with pe Some show ?thesis by (simp add: run_batch_def Let_def)
  qed
qed

lemma entryToStore_clean:
  "normalising env \<Longrightarrow> cleanWord env (s_word (entryToStore env now e)) = s_word (entryToStore env now e)"
  by (simp add: entryToStore_def cleanWord_idem)

lemma storeBatch_record_clean:
  "normalising env \<Longrightarrow> cleanWord env (s_word (storeBatch_record env now e)) = s_word (storeBatch_record env now e)"
  by (simp add: storeBatch_record_def cleanWord_idem)

lemma set_normalized:
  assumes "normalized_store env st" "normalising env"
  shows "normalized_store env (snd (snd (DictionaryDB_set env now e d st)))"
proof -
  have "normalized_store env (AList.update (s_word (entryToStore env now e)) (entryToStore env now e) st)"
    using assms by (intro normalized_store_update) (simp_all add: entryToStore_clean)
  then show ?thesis using assms(1)
    by (simp add: DictionaryDB_set_def split: prod.splits option.splits)
qed

lemma setBatch_normalized:
  assumes "normalized_store env st" "normalising env"
  shows "normalized_store env (snd (snd (DictionaryDB_setBatch env now es d st)))"
proof -
  have "normalized_store env (snd (run_batch env (entryToStore env now) es st))"
    using assms(1) by (rule run_batch_normalized) (rule entryToStore_clean[OF assms(2)])
  then show ?thesis using assms(1)
    by (auto simp add: DictionaryDB_setBatch_def split: prod.splits option.splits)
qed

lemma storeBatch_normalized:
  assumes "normalized_store env st" "normalising env"
  shows "normalized_store env (snd (storeBatch env now es st))"
  unfolding storeBatch_def using assms(1)
  by (rule run_batch_normalized) (rule storeBatch_record_clean[OF assms(2)])

lemma init_twice:
  "DictionaryDB_init env d = (None, d') \<Longrightarrow> DictionaryDB_init env d' = (None, d')"
  by (auto simp: DictionaryDB_init_def split: DictionaryDB.splits option.splits)

text \<open>
  Claim C6. \<open>trim\<close> and \<open>toLowerCase\<close> are any two functions on strings, those of the
  platform. Let \<open>set\<close> store an entry whose word \<open>w\<close> is not empty, on a database that
  opens and with no fault on the key. Then \<open>set\<close> fulfils, and \<open>get\<close> of \<open>w\<close> returns
  the record with the same data under the key \<open>toLowerCase (trim w)\<close>; so does \<open>get\<close> of
  any word with the same clean form, as \<open>Hello \<close> for the word \<open>hello\<close> (on a platform
  where both clean to \<open>hello\<close>). When cleaning a clean word changes nothing, a store
  whose keys are clean words stays so under \<open>set\<close>, \<open>setBatch\<close> and \<open>storeBatch\<close>, and
  such a store has no two keys with the same clean form.
\<close>

theorem store_roundtrip:
  assumes "word e = Some w" and "w \<noteq> []"
    and "fst (DictionaryDB_init env d) = None"
    and "put_error env (cleanWord env w) = None" and "get_error env (cleanWord env w) = None"
    and "DictionaryDB_set env now e d st = (p, d', st')"
  shows "p = Fulfilled ()
     \<and> fst (DictionaryDB_get env w d' st')
          = Fulfilled (Some \<lparr>s_word = toLowerCase env (trim env w), s_data = data e, s_timestamp = now\<rparr>)
     \<and> (\<forall>w'. cleanWord env w' = cleanWord env w \<longrightarrow>
           fst (DictionaryDB_get env w' d' st')
             = Fulfilled (Some \<lparr>s_word = cleanWord env w, s_data = data e, s_timestamp = now\<rparr>))
     \<and> (w = ''hello'' \<and> cleanWord env ''hello'' = ''hello'' \<and> cleanWord env ''Hello '' = ''hello'' \<longrightarrow>
           fst (DictionaryDB_get env ''Hello '' d' st')
             = Fulfilled (Some \<lparr>s_word = ''hello'', s_data = data e, s_timestamp = now\<rparr>))
     \<and> (normalising env \<and> normalized_store env st \<longrightarrow>
           normalized_store env st'
           \<and> (\<forall>k1 \<in> fst ` set st'. \<forall>k2 \<in> fst ` set st'.
                 cleanWord env k1 = cleanWord env k2 \<longrightarrow> k1 = k2)
           \<and> (\<forall>es d2. normalized_store env (snd (snd (DictionaryDB_setBatch env now es d2 st'))))
           \<and> (\<forall>es. normalized_store env (snd (storeBatch env now es st'))))"
proof -
  obtain d1 where i: "DictionaryDB_init env d = (None, d1)"
    using assms(3) by (cases "DictionaryDB_init env d") auto
  have hw: "has_word e" "word_of e = w" using assms(1,2) by (simp_all add: has_word_def word_of_def)
  have res: "p = Fulfilled ()" "d' = d1"
    "st' = AList.update (cleanWord env w) \<lparr>s_word = cleanWord env w, s_data = data e, s_timestamp = now\<rparr> st"
    using assms(4,6) i hw by (simp_all add: DictionaryDB_set_def entryToStore_def)
  have i': "DictionaryDB_init env d' = (None, d')" using i res(2) init_twice by simp
  have g: "fst (DictionaryDB_get env w' d' st')
             = Fulfilled (Some \<lparr>s_word = cleanWord env w, s_data = data e, s_timestamp = now\<rparr>)"
    if "cleanWord env w' = cleanWord env w" for w'
    using that i' assms(5) by (simp add: DictionaryDB_get_def res(3) update_conv')
  have g0: "fst (DictionaryDB_get env w d' st')
          = Fulfilled (Some \<lparr>s_word = toLowerCase env (trim env w), s_data = data e, s_timestamp = now\<rparr>)"
    using g[of w] by (simp add: cleanWord_def)
  have gall: "\<forall>w'. cleanWord env w' = cleanWord env w \<longrightarrow>
           fst (DictionaryDB_get env w' d' st')
             = Fulfilled (Some \<lparr>s_word = cleanWord env w, s_data = data e, s_timestamp = now\<rparr>)"
    using g by blast
  have c: "w = ''hello'' \<and> cleanWord env ''hello'' = ''hello'' \<and> cleanWord env ''Hello '' = ''hello'' \<longrightarrow>
           fst (DictionaryDB_get env ''Hello '' d' st')
             = Fulfilled (Some \<lparr>s_word = ''hello'', s_data = data e, s_timestamp = now\<rparr>)"
  proof (rule impI)
    assume a: "w = ''hello'' \<and> cleanWord env ''hello'' = ''hello'' \<and> cleanWord env ''Hello '' = ''hello''"
    then have "cleanWord env ''Hello '' = cleanWord env w" by simp
    from g[OF this] a show "fst (DictionaryDB_get env ''Hello '' d' st')
             = Fulfilled (Some \<lparr>s_word = ''hello'', s_data = data e, s_timestamp = now\<rparr>)"
      by simp
  qed
  have n: "normalising env \<and> normalized_store env st \<longrightarrow>
           normalized_store env st'
           \<and> (\<forall>k1 \<in> fst ` set st'. \<forall>k2 \<in> fst ` set st'.
                 cleanWord env k1 = cleanWord env k2 \<longrightarrow> k1 = k2)
           \<and> (\<forall>es d2. normalized_store env (snd (snd (DictionaryDB_setBatch env now es d2 st'))))
           \<and> (\<forall>es. normalized_store env (snd (storeBatch env now es st')))"
  proof (rule impI)
    assume a: "normalising env \<and> normalized_store env st"
    then have nm: "normalising env" and ns: "normalized_store env st" by simp_all
    have 1: "normalized_store env st'"
      using set_normalized[OF ns nm, of now e d] assms(6) by simp
    have 2: "\<forall>k1 \<in> fst ` set st'. \<forall>k2 \<in> fst ` set st'. cleanWord env k1 = cleanWord env k2 \<longrightarrow> k1 = k2"
      using normalized_store_unique[OF 1] by blast
    have 3: "\<forall>es d2. normalized_store env (snd (snd (DictionaryDB_setBatch env now es d2 st')))"
      using setBatch_normalized[OF 1 nm] by blast
    have 4: "\<forall>es. normalized_store env (snd (storeBatch env now es st'))"
      using storeBatch_normalized[OF 1 nm] by blast
    show "normalized_store env st'
           \<and> (\<forall>k1 \<in> fst ` set st'. \<forall>k2 \<in> fst ` set st'.
                 cleanWord env k1 = cleanWord env k2 \<longrightarrow> k1 = k2)
           \<and> (\<forall>es d2. normalized_store env (snd (snd (DictionaryDB_setBatch env now es d2 st'))))
           \<and> (\<forall>es. normalized_store env (snd (storeBatch env now es st')))"
      by (intro conjI) (rule 1 2 3 4)+
  qed
  show ?thesis by (intro conjI) (rule res(1) g0 gall c n)+
qed

subsection \<open>Batches\<close>

lemma first_fault_Cons:
  "first_fault env (r # rs) = (case put_error env (s_word r) of None \<Rightarrow> first_fault env rs | Some e \<Rightarrow> Some e)"
  by (auto simp: first_fault_def split: option.splits)

lemma skipped_le: "skipped es \<le> length es"
  by (simp add: skipped_def)

lemma skipped_Cons: "skipped (e # es) = (if has_word e then skipped es else Suc (skipped es))"
  by (simp add: skipped_def)

lemma forEach_state:
  assumes "completed b + length es \<le> n" "\<not> hasError b" "settled b = Pending"
  shows "completed (foldl (forEach_entry mk n) b es) = completed b + skipped es
       \<and> \<not> hasError (foldl (forEach_entry mk n) b es)
       \<and> settled (foldl (forEach_entry mk n) b es)
           = (if es \<noteq> [] \<and> completed b + skipped es = n then Fulfilled () else Pending)"
  using assms
proof (induction es arbitrary: b)
  case Nil
  then show ?case by (simp add: skipped_def)
next
  case (Cons e es)
  show ?case
  proof (cases "has_word e")
    case True
    let ?b = "b\<lparr>requests := requests b @ [mk e]\<rparr>"
    have f: "forEach_entry mk n b e = ?b" using True by (simp add: forEach_entry_def)
    have p: "completed ?b + length es \<le> n" "\<not> hasError ?b" "settled ?b = Pending"
      using Cons.prems by simp_all
    have ne: "completed b + skipped es \<noteq> n"
      using Cons.prems(1) skipped_le[of es] by simp
    show ?thesis using Cons.IH[OF p] True ne by (simp add: f skipped_Cons)
  next
    case False
    show ?thesis
    proof (cases es)
      case Nil
      with False Cons.prems show ?thesis
        by (simp add: forEach_entry_def complete_one_def resolve_def Let_def skipped_Cons skipped_def)
    next
      case (Cons e' es')
      let ?b = "b\<lparr>completed := completed b + 1\<rparr>"
      have lt: "completed b + 1 \<noteq> n" using Cons.prems(1) Cons by simp
      then have f: "forEach_entry mk n b e = ?b" using False
        by (simp add: forEach_entry_def complete_one_def Let_def)
      have p: "completed ?b + length es \<le> n" "\<not> hasError ?b" "settled ?b = Pending"
        using Cons.prems by simp_all
      show ?thesis using Cons.IH[OF p] False Cons by (simp add: f skipped_Cons)
    qed
  qed
qed

lemma onerror_noop: "hasError b \<Longrightarrow> foldl (\<lambda>b' r'. onerror x b') b rs = b"
  by (induction rs) (simp_all add: onerror_def)

lemma put_events_settled:
  assumes "completed b + length rs = n" "\<not> hasError b" "settled b = Pending" "rs \<noteq> []"
  shows "settled (fst (put_events env n rs b st))
           = (case first_fault env rs of None \<Rightarrow> Fulfilled () | Some e \<Rightarrow> Rejected e)"
  using assms
proof (induction rs arbitrary: b st)
  case Nil
  then show ?case by simp
next
  case (Cons r rs)
  show ?case
  proof (cases "put_error env (s_word r)")
    case (Some e)
    have "hasError (onerror e b)" "settled (onerror e b) = Rejected e"
      using Cons.prems by (simp_all add: onerror_def reject_def)
    then show ?thesis using Some by (simp add: first_fault_Cons onerror_noop)
  next
    case None
    show ?thesis
    proof (cases rs)
      case Nil
      with None Cons.prems show ?thesis
        by (simp add: first_fault_Cons complete_one_def resolve_def Let_def first_fault_def)
    next
      case (Cons r' rs')
      let ?b = "b\<lparr>completed := completed b + 1\<rparr>"
      have "completed b + 1 \<noteq> n" using Cons.prems(1) Cons by simp
      then have c: "complete_one n b = ?b" by (simp add: complete_one_def Let_def)
      have p: "completed ?b + length rs = n" "\<not> hasError ?b" "settled ?b = Pending" "rs \<noteq> []"
        using Cons.prems Cons by simp_all
      show ?thesis using Cons.IH[OF p] None by (simp add: c first_fault_Cons)
    qed
  qed
qed

lemma length_requests: "length (filter has_word es) + skipped es = length es"
  unfolding skipped_def by (induction es) auto

lemma run_batch_promise:
  "fst (run_batch env mk entries st) =
     (if entries = [] then Pending
      else case first_fault env (map mk (filter has_word entries)) of
             None \<Rightarrow> Fulfilled ()
           | Some e \<Rightarrow> Rejected e)"
proof (cases "entries = []")
  case True
  then show ?thesis by (simp add: run_batch_def)
next
  case False
  let ?n = "length entries"
  let ?start = "\<lparr>completed = 0, hasError = False, settled = Pending, requests = []\<rparr>"
  let ?b = "foldl (forEach_entry mk ?n) ?start entries"
  let ?rs = "map mk (filter has_word entries)"
  have fe: "completed ?b = skipped entries" "\<not> hasError ?b"
    "settled ?b = (if skipped entries = ?n then Fulfilled () else Pending)"
    using forEach_state[where b = ?start and es = entries and n = ?n and mk = mk] False by simp_all
  have rq: "requests ?b = ?rs" by (simp add: requests_forEach)
  have fs: "fst (run_batch env mk entries st) = settled (fst (put_events env ?n ?rs ?b st))"
    by (simp add: run_batch_def Let_def rq split: prod.splits option.splits)
  show ?thesis
  proof (cases "?rs = []")
    case True
    then have "skipped entries = ?n" using length_requests[of entries] by simp
    with True False fe fs show ?thesis by (simp add: first_fault_def)
  next
    case nonempty: False
    then have "skipped entries \<noteq> ?n" using length_requests[of entries] by auto
    then have "settled ?b = Pending" using fe by simp
    moreover have "completed ?b + length ?rs = ?n" using fe(1) length_requests[of entries] by simp
    ultimately have "settled (fst (put_events env ?n ?rs ?b st))
           = (case first_fault env ?rs of None \<Rightarrow> Fulfilled () | Some e \<Rightarrow> Rejected e)"
      using fe(2) nonempty by (intro put_events_settled) simp_all
    with fs False show ?thesis by simp
  qed
qed

lemma put_all_simps:
  "put_all st [] = st"
  "put_all st (r # rs) = put_all (AList.update (s_word r) r st) rs"
  by (simp_all add: put_all_def)

lemma put_events_store:
  "snd (put_events env n rs b st) =
     (case first_fault env rs of None \<Rightarrow> Some (put_all st rs) | Some e \<Rightarrow> None)"
proof (induction rs arbitrary: b st)
  case Nil
  show ?case by (simp add: first_fault_def put_all_simps)
next
  case (Cons r rs)
  show ?case
  proof (cases "put_error env (s_word r)")
    case None
    then show ?thesis using Cons.IH[of "complete_one n b" "AList.update (s_word r) r st"]
      by (simp add: first_fault_Cons put_all_simps split: option.splits)
  next
    case (Some e)
    then show ?thesis by (simp add: first_fault_Cons)
  qed
qed

lemma run_batch_store:
  "snd (run_batch env mk entries st) =
     (case first_fault env (map mk (filter has_word entries)) of
        None \<Rightarrow> put_all st (map mk (filter has_word entries))
      | Some e \<Rightarrow> st)"
proof -
  let ?n = "length entries"
  let ?b = "foldl (forEach_entry mk ?n) \<lparr>completed = 0, hasError = False, settled = Pending, requests = []\<rparr> entries"
  let ?rs = "map mk (filter has_word entries)"
  have rq: "requests ?b = ?rs" by (simp add: requests_forEach)
  obtain b' r where pe: "put_events env ?n ?rs ?b st = (b', r)"
    by (cases "put_events env ?n ?rs ?b st")
  then have "r = (case first_fault env ?rs of None \<Rightarrow> Some (put_all st ?rs) | Some e \<Rightarrow> None)"
    using put_events_store[of env ?n ?rs ?b st] by simp
  with pe show ?thesis
    by (simp add: run_batch_def Let_def rq split: option.splits)
qed

text \<open>
  Claim C10. On the empty list, the promise of \<open>storeBatch\<close> stays pending, and so does
  the promise of \<open>setBatch\<close> once the database is open: \<open>forEach\<close> never runs the code
  that calls \<open>resolve\<close>. On a list that is not empty the promise settles: it is fulfilled,
  with every entry that has a word written, when no request fails, and rejected with the
  error of the first failing request otherwise, the store being left as it was.
\<close>

theorem batch_settles:
  "fst (storeBatch env now [] st) = Pending
   \<and> (fst (DictionaryDB_init env d) = None \<longrightarrow> fst (DictionaryDB_setBatch env now [] d st) = Pending)
   \<and> (entries \<noteq> [] \<longrightarrow>
        fst (storeBatch env now entries st) \<noteq> Pending
        \<and> fst (DictionaryDB_setBatch env now entries d st) \<noteq> Pending
        \<and> storeBatch env now entries st =
            (case first_fault env (map (storeBatch_record env now) (filter has_word entries)) of
               None \<Rightarrow> (Fulfilled (), put_all st (map (storeBatch_record env now) (filter has_word entries)))
             | Some e \<Rightarrow> (Rejected e, st))
        \<and> (fst (DictionaryDB_init env d) = None \<longrightarrow>
             (let (p, d', st') = DictionaryDB_setBatch env now entries d st
              in (p, st') =
                 (case first_fault env (map (entryToStore env now) (filter has_word entries)) of
                    None \<Rightarrow> (Fulfilled (), put_all st (map (entryToStore env now) (filter has_word entries)))
                  | Some e \<Rightarrow> (Rejected e, st)))))"
proof -
  have 1: "fst (storeBatch env now [] st) = Pending"
    by (simp add: storeBatch_def run_batch_promise)
  have 2: "fst (DictionaryDB_setBatch env now [] d st) = Pending" if "fst (DictionaryDB_init env d) = None"
    using that run_batch_promise[of env "entryToStore env now" "[]" st]
    by (auto simp: DictionaryDB_setBatch_def split: prod.splits option.splits)
  have rb: "run_batch env mk entries st =
            (case first_fault env (map mk (filter has_word entries)) of
               None \<Rightarrow> (Fulfilled (), put_all st (map mk (filter has_word entries)))
             | Some e \<Rightarrow> (Rejected e, st))" if "entries \<noteq> []" for mk
    using that run_batch_promise[of env mk entries st] run_batch_store[of env mk entries st]
    by (cases "run_batch env mk entries st") (auto split: option.splits)
  have 3: "storeBatch env now entries st =
            (case first_fault env (map (storeBatch_record env now) (filter has_word entries)) of
               None \<Rightarrow> (Fulfilled (), put_all st (map (storeBatch_record env now) (filter has_word entries)))
             | Some e \<Rightarrow> (Rejected e, st))" if "entries \<noteq> []"
    unfolding storeBatch_def using that by (rule rb)
  have 4: "fst (storeBatch env now entries st) \<noteq> Pending" if "entries \<noteq> []"
    using 3[OF that] by (auto split: option.splits)
  have 5: "fst (DictionaryDB_setBatch env now entries d st) \<noteq> Pending" if "entries \<noteq> []"
    using rb[OF that, of "entryToStore env now"]
    by (auto simp: DictionaryDB_setBatch_def split: prod.splits option.splits)
  have 6: "(let (p, d', st') = DictionaryDB_setBatch env now entries d st
              in (p, st') =
                 (case first_fault env (map (entryToStore env now) (filter has_word entries)) of
                    None \<Rightarrow> (Fulfilled (), put_all st (map (entryToStore env now) (filter has_word entries)))
                  | Some e \<Rightarrow> (Rejected e, st)))"
    if "entries \<noteq> []" "fst (DictionaryDB_init env d) = None"
    using rb[OF that(1), of "entryToStore env now"] that(2)
    by (auto simp: DictionaryDB_setBatch_def split: prod.splits option.splits)
  show ?thesis using 1 2 3 4 5 6 by simp
qed

text \<open>
  The theorem on ASCII strings, at the empty store: the entry for \<open>hello\<close> is stored and
  found again under \<open>Hello \<close>, and the keys of the store are clean.
\<close>

theorem store_roundtrip_witness:
  "fst (DictionaryDB_init ascii_idb Fresh) = None
   \<and> normalising ascii_idb
   \<and> normalized_store ascii_idb []
   \<and> fst (DictionaryDB_set ascii_idb 5 \<lparr>word = Some ''hello'', data = Some (JStr ''a greeting'')\<rparr> Fresh [])
       = Fulfilled ()
   \<and> fst (DictionaryDB_get ascii_idb ''Hello ''
        (fst (snd (DictionaryDB_set ascii_idb 5
            \<lparr>word = Some ''hello'', data = Some (JStr ''a greeting'')\<rparr> Fresh [])))
        (snd (snd (DictionaryDB_set ascii_idb 5
            \<lparr>word = Some ''hello'', data = Some (JStr ''a greeting'')\<rparr> Fresh []))))
      = Fulfilled (Some \<lparr>s_word = ''hello'', s_data = Some (JStr ''a greeting''), s_timestamp = 5\<rparr>)
   \<and> normalized_store ascii_idb (snd (snd (DictionaryDB_set ascii_idb 5
            \<lparr>word = Some ''hello'', data = Some (JStr ''a greeting'')\<rparr> Fresh [])))"
proof -
  let ?e = "\<lparr>word = Some ''hello'', data = Some (JStr ''a greeting'')\<rparr>"
  obtain p d' st' where s: "DictionaryDB_set ascii_idb 5 ?e Fresh [] = (p, d', st')"
    by (cases "DictionaryDB_set ascii_idb 5 ?e Fresh []")
  have h: "word ?e = Some ''hello''" "''hello'' \<noteq> []"
    "fst (DictionaryDB_init ascii_idb Fresh) = None"
    "put_error ascii_idb (cleanWord ascii_idb ''hello'') = None"
    "get_error ascii_idb (cleanWord ascii_idb ''hello'') = None"
    by (simp_all add: DictionaryDB_init_def)
  have nm: "normalising ascii_idb" by (rule ascii_normalising) simp_all
  have n: "normalized_store ascii_idb []" by (simp add: normalized_store_def)
  have cw: "cleanWord ascii_idb ''hello'' = ''hello''" "cleanWord ascii_idb ''Hello '' = ''hello''"
    by code_simp+
  note t = store_roundtrip[OF h s]
  have 1: "p = Fulfilled ()" using t by (rule conjunct1)
  have "''hello'' = ''hello'' \<and> cleanWord ascii_idb ''hello'' = ''hello'' \<and> cleanWord ascii_idb ''Hello '' = ''hello'' \<longrightarrow>
           fst (DictionaryDB_get ascii_idb ''Hello '' d' st')
             = Fulfilled (Some \<lparr>s_word = ''hello'', s_data = data ?e, s_timestamp = 5\<rparr>)"
    using t by (elim conjE)
  then have 2: "fst (DictionaryDB_get ascii_idb ''Hello '' d' st')
             = Fulfilled (Some \<lparr>s_word = ''hello'', s_data = Some (JStr ''a greeting''), s_timestamp = 5\<rparr>)"
    using cw by simp
  have "normalising ascii_idb \<and> normalized_store ascii_idb [] \<longrightarrow>
           normalized_store ascii_idb st'
           \<and> (\<forall>k1 \<in> fst ` set st'. \<forall>k2 \<in> fst ` set st'.
                 cleanWord ascii_idb k1 = cleanWord ascii_idb k2 \<longrightarrow> k1 = k2)
           \<and> (\<forall>es d2. normalized_store ascii_idb (snd (snd (DictionaryDB_setBatch ascii_idb 5 es d2 st'))))
           \<and> (\<forall>es. normalized_store ascii_idb (snd (storeBatch ascii_idb 5 es st')))"
    using t by (elim conjE)
  then have 3: "normalized_store ascii_idb st'" using nm n by (elim impE conjE) (rule conjI)
  have f: "fst (DictionaryDB_set ascii_idb 5 ?e Fresh []) = Fulfilled ()"
    "fst (snd (DictionaryDB_set ascii_idb 5 ?e Fresh [])) = d'"
    "snd (snd (DictionaryDB_set ascii_idb 5 ?e Fresh [])) = st'"
    using 1 by (simp_all only: s fst_conv snd_conv)
  show ?thesis unfolding f by (intro conjI) (rule h(3) nm n refl 2 3)+
qed

text \<open>
  The theorem at the empty list, at a batch with one entry to write and one to skip, and
  at a batch whose second request fails.
\<close>

theorem batch_settles_witness:
  "fst (storeBatch ascii_idb 5 [] []) = Pending
   \<and> storeBatch ascii_idb 5
        [\<lparr>word = Some ''Hi '', data = Some (JArr [])\<rparr>, \<lparr>word = None, data = None\<rparr>] []
      = (Fulfilled (), [(''hi'', \<lparr>s_word = ''hi'', s_data = Some (JArr []), s_timestamp = 5\<rparr>)])
   \<and> storeBatch \<lparr>open_error = None, get_error = (\<lambda>k. None),
          put_error = (\<lambda>k. if k = ''b'' then Some (JsError ''QuotaExceededError'' ''full'') else None),
          trim = ascii_trim, toLowerCase = ascii_toLowerCase\<rparr> 5
        [\<lparr>word = Some ''a'', data = Some (JArr [])\<rparr>, \<lparr>word = Some ''B'', data = Some (JArr [])\<rparr>,
         \<lparr>word = Some ''c'', data = Some (JArr [])\<rparr>] []
      = (Rejected (JsError ''QuotaExceededError'' ''full''), [])"
proof -
  let ?env = "ascii_idb"
  let ?envF = "\<lparr>open_error = None, get_error = (\<lambda>k. None),
          put_error = (\<lambda>k. if k = ''b'' then Some (JsError ''QuotaExceededError'' ''full'') else None),
          trim = ascii_trim, toLowerCase = ascii_toLowerCase\<rparr>"
  let ?es = "[\<lparr>word = Some ''Hi '', data = Some (JArr [])\<rparr>, \<lparr>word = None, data = None\<rparr>]"
  let ?fs = "[\<lparr>word = Some ''a'', data = Some (JArr [])\<rparr>, \<lparr>word = Some ''B'', data = Some (JArr [])\<rparr>,
         \<lparr>word = Some ''c'', data = Some (JArr [])\<rparr>]"
  have cw: "cleanWord ?env ''Hi '' = ''hi''" "cleanWord ?envF ''a'' = ''a''"
    "cleanWord ?envF ''B'' = ''b''" "cleanWord ?envF ''c'' = ''c''"
    by code_simp+
  have 1: "fst (storeBatch ?env 5 [] []) = Pending"
    using batch_settles[of ?env 5 "[]" Fresh "[]"] by simp
  have 2: "storeBatch ?env 5 ?es [] = (Fulfilled (), [(''hi'', \<lparr>s_word = ''hi'', s_data = Some (JArr []), s_timestamp = 5\<rparr>)])"
    using batch_settles[of ?env 5 "[]" Fresh ?es]
    by (simp add: has_word_def first_fault_def storeBatch_record_def word_of_def cw put_all_def data_or_entry_def)
  have 3: "storeBatch ?envF 5 ?fs [] = (Rejected (JsError ''QuotaExceededError'' ''full''), [])"
    using batch_settles[of ?envF 5 "[]" Fresh ?fs]
    by (simp add: has_word_def first_fault_def storeBatch_record_def word_of_def cw put_all_def data_or_entry_def)
  show ?thesis using 1 2 3 by simp
qed

subsection \<open>The remote fetch\<close>

lemma fetch_after_failures:
  assumes "\<forall>j<k. transient nw url (n + j)" "k \<le> retries"
  shows "fetchWithTimeout nw url n retries =
           (case fetchWithTimeout nw url (n + k) (retries - k) of
              (res, tr) \<Rightarrow> (res, retry_prefix url n k @ tr))"
  using assms
proof (induction k arbitrary: n retries)
  case 0
  show ?case by (simp split: prod.splits del: fetchWithTimeout.simps)
next
  case (Suc k)
  obtain r where r: "retries = Suc r" using Suc.prems(2) by (cases retries) auto
  have "transient nw url n" using Suc.prems(1) by (metis add.right_neutral zero_less_Suc)
  then obtain e where e: "nw url n = Fails e" "err_name e \<noteq> ''AbortError''"
    by (auto simp: transient_def split: outcome.splits)
  have step: "fetchWithTimeout nw url n retries =
       (case fetchWithTimeout nw url (Suc n) r of (res, tr) \<Rightarrow> (res, [Fetch url n, Delay 1000] @ tr))"
    by (subst fetchWithTimeout.simps) (simp add: e r)
  have "\<forall>j<k. transient nw url (Suc n + j)" using Suc.prems(1) by auto
  moreover have "k \<le> r" using Suc.prems(2) r by simp
  ultimately have ih: "fetchWithTimeout nw url (Suc n) r =
           (case fetchWithTimeout nw url (Suc n + k) (r - k) of
              (res, tr) \<Rightarrow> (res, retry_prefix url (Suc n) k @ tr))"
    by (rule Suc.IH)
  show ?case unfolding step ih
    by (simp add: r split: prod.splits del: fetchWithTimeout.simps)
qed

lemma attempts_append: "attempts (xs @ ys) = attempts xs + attempts ys"
  by (simp add: attempts_def)

lemma attempts_simps:
  "attempts [] = 0"
  "attempts (Fetch u n # tr) = Suc (attempts tr)"
  "attempts (Abort u n # tr) = attempts tr"
  "attempts (Delay ms # tr) = attempts tr"
  "attempts (CacheGet key # tr) = attempts tr"
  "attempts (CacheSet key # tr) = attempts tr"
  "attempts (DbInit # tr) = attempts tr"
  "attempts (DbGet key # tr) = attempts tr"
  "attempts (DbSet key # tr) = attempts tr"
  by (simp_all add: attempts_def is_Fetch_def)

lemma attempts_retry_prefix: "attempts (retry_prefix url n k) = k"
  by (induction k arbitrary: n) (simp_all add: attempts_def is_Fetch_def)

lemma fetch_silent:
  assumes "\<forall>j<k. transient nw url j" "k \<le> retries" "nw url k = Silent"
  shows "fetchWithTimeout nw url 0 retries =
           (Inl (JsError ''Error'' ''Request timeout''), retry_prefix url 0 k @ [Fetch url k, Abort url k])"
proof -
  have "fetchWithTimeout nw url k (retries - k) = (Inl (JsError ''Error'' ''Request timeout''), [Fetch url k, Abort url k])"
    by (subst fetchWithTimeout.simps) (simp add: assms(3))
  then show ?thesis using fetch_after_failures[of k nw url 0 retries] assms(1,2)
    by (simp del: fetchWithTimeout.simps)
qed

lemma fetch_responds:
  assumes "\<forall>j<k. transient nw url j" "k \<le> retries" "nw url k = Responds r"
  shows "fetchWithTimeout nw url 0 retries = (Inr r, retry_prefix url 0 k @ [Fetch url k])"
proof -
  have "fetchWithTimeout nw url k (retries - k) = (Inr r, [Fetch url k])"
    by (subst fetchWithTimeout.simps) (simp add: assms(3))
  then show ?thesis using fetch_after_failures[of k nw url 0 retries] assms(1,2)
    by (simp del: fetchWithTimeout.simps)
qed

lemma api_settings [simp]:
  "apiUrl (afterHotCache env now w m) = apiUrl m" "apiRetries (afterHotCache env now w m) = apiRetries m"
  "apiUrl (initDB env m) = apiUrl m" "apiRetries (initDB env m) = apiRetries m"
  "apiUrl (fst (snd (lookupDB env cw m st))) = apiUrl m"
  "apiRetries (fst (snd (lookupDB env cw m st))) = apiRetries m"
  by (auto simp: afterHotCache_def initDB_def lookupDB_def
      split: option.splits prod.splits promise.splits)

lemma fetchFromAPI_settings:
  "apiUrl m' = apiUrl m \<Longrightarrow> apiRetries m' = apiRetries m \<Longrightarrow> fetchFromAPI env m' w = fetchFromAPI env m w"
  by (simp add: fetchFromAPI_def del: fetchWithTimeout.simps)

lemma lookupDB_trace:
  "snd (snd (lookupDB env cw m st)) = [] \<or> snd (snd (lookupDB env cw m st)) = [DbGet cw]"
  by (auto simp: lookupDB_def split: option.splits prod.splits promise.splits)

lemma getDefinition_misses:
  assumes "misses env now w m st"
  shows "\<exists>m3 tr2. apiUrl m3 = apiUrl m \<and> apiRetries m3 = apiRetries m
          \<and> (tr2 = [] \<or> tr2 = [DbGet (cleanWord (idb env) w)])
          \<and> getDefinition env now w m st =
              (case fetchLayer env now (cleanWord (idb env) w) m3 st of
                 (res, m', st', tr3) \<Rightarrow> (res, m', st', [CacheGet (''word_'' @ cleanWord (idb env) w), DbInit] @ tr2 @ tr3))"
proof -
  obtain h m3 tr2 where l: "lookupDB env (cleanWord (idb env) w) (initDB env (afterHotCache env now w m)) st = (h, m3, tr2)"
    by (cases "lookupDB env (cleanWord (idb env) w) (initDB env (afterHotCache env now w m)) st") auto
  have h: "h = None" using assms l by (simp add: misses_def)
  have "m3 = fst (snd (lookupDB env (cleanWord (idb env) w) (initDB env (afterHotCache env now w m)) st))"
    using l by simp
  then have s: "apiUrl m3 = apiUrl m" "apiRetries m3 = apiRetries m" by simp_all
  have t: "tr2 = [] \<or> tr2 = [DbGet (cleanWord (idb env) w)]"
    using lookupDB_trace[of env "cleanWord (idb env) w" "initDB env (afterHotCache env now w m)" st] l by simp
  have "getDefinition env now w m st =
              (case fetchLayer env now (cleanWord (idb env) w) m3 st of
                 (res, m', st', tr3) \<Rightarrow> (res, m', st', [CacheGet (''word_'' @ cleanWord (idb env) w), DbInit] @ tr2 @ tr3))"
    using assms l h by (simp add: getDefinition_def misses_def Let_def)
  with s t show ?thesis by blast
qed

lemma fetchFromAPI_silent:
  assumes "url = apiUrl m @ ''/'' @ encodeURIComponent env w"
    and "\<forall>j<k. transient (net env) url j" "k \<le> apiRetries m" "net env url k = Silent"
  shows "fetchFromAPI env m w =
           (Inl (JsError ''Error'' ''Request timeout''), retry_prefix url 0 k @ [Fetch url k, Abort url k])"
  using fetch_silent[OF assms(2,3,4)] assms(1)
  by (simp add: fetchFromAPI_def del: fetchWithTimeout.simps)

lemma fetchFromAPI_404:
  assumes "url = apiUrl m @ ''/'' @ encodeURIComponent env w"
    and "\<forall>j<k. transient (net env) url j" "k \<le> apiRetries m" "net env url k = Responds r" "status r = 404"
  shows "fetchFromAPI env m w = (Inr (ApiError ''not_found''), retry_prefix url 0 k @ [Fetch url k])"
  using fetch_responds[OF assms(2,3,4)] assms(1,5)
  by (simp add: fetchFromAPI_def ok_def del: fetchWithTimeout.simps)

text \<open>
  Claim C1, as the code has it. Let the first \<open>k\<close> attempts fail at the connection, with
  \<open>k\<close> within the retry count, and let the next attempt stay silent until its deadline.
  Then the timer of that attempt aborts its request and \<open>fetchWithTimeout\<close> throws
  \<open>Request timeout\<close> at once: the attempt that timed out is not retried, so \<open>k + 1\<close>
  requests are sent in all. A lookup that reaches the API this way returns an error and
  no data.
\<close>

theorem timeout_not_retried:
  assumes "url = apiUrl m @ ''/'' @ encodeURIComponent env (cleanWord (idb env) w)"
    and "\<forall>j<k. transient (net env) url j" and "k \<le> apiRetries m"
    and "net env url k = Silent"
    and "misses env now w m st"
    and "getDefinition env now w m st = (res, m', st', tr)"
  shows "fetchWithTimeout (net env) url 0 (apiRetries m) =
           (Inl (JsError ''Error'' ''Request timeout''),
            retry_prefix url 0 k @ [Fetch url k, Abort url k])
       \<and> attempts tr = k + 1
       \<and> Abort url k \<in> set tr
       \<and> r_data res = None \<and> r_error res \<noteq> None"
proof -
  have 1: "fetchWithTimeout (net env) url 0 (apiRetries m) =
           (Inl (JsError ''Error'' ''Request timeout''),
            retry_prefix url 0 k @ [Fetch url k, Abort url k])"
    by (rule fetch_silent[OF assms(2,3,4)])
  obtain m3 tr2 where m3: "apiUrl m3 = apiUrl m" "apiRetries m3 = apiRetries m"
    and t2: "tr2 = [] \<or> tr2 = [DbGet (cleanWord (idb env) w)]"
    and g: "getDefinition env now w m st =
              (case fetchLayer env now (cleanWord (idb env) w) m3 st of
                 (res, m', st', tr3) \<Rightarrow> (res, m', st', [CacheGet (''word_'' @ cleanWord (idb env) w), DbInit] @ tr2 @ tr3))"
    using getDefinition_misses[OF assms(5)] by blast
  have tr2: "attempts tr2 = 0"
    using t2 by (auto simp: attempts_simps)
  have f: "fetchFromAPI env m3 (cleanWord (idb env) w) =
           (Inl (JsError ''Error'' ''Request timeout''), retry_prefix url 0 k @ [Fetch url k, Abort url k])"
    using fetchFromAPI_silent[of url m3 env "cleanWord (idb env) w" k] assms(1-4) m3 by simp
  have fl: "fetchLayer env now (cleanWord (idb env) w) m3 st =
      (network_failure (JsError ''Error'' ''Request timeout''), m3, st, retry_prefix url 0 k @ [Fetch url k, Abort url k])"
    by (simp add: fetchLayer_def f)
  have res: "res = network_failure (JsError ''Error'' ''Request timeout'')"
    and tr: "tr = [CacheGet (''word_'' @ cleanWord (idb env) w), DbInit] @ tr2 @ retry_prefix url 0 k @ [Fetch url k, Abort url k]"
    using g assms(6) by (simp_all add: fl)
  have 2: "attempts tr = k + 1"
    unfolding tr by (simp add: attempts_append attempts_retry_prefix tr2 attempts_simps)
  have 3: "Abort url k \<in> set tr" unfolding tr by simp
  have 4: "r_data res = None \<and> r_error res \<noteq> None" by (simp add: res network_failure_def)
  show ?thesis using 1 2 3 4 by simp
qed

text \<open>
  Claim C1 as stated fails: with a retry count of 2 and a network that never answers, one
  request is sent, and the error returned is of kind \<open>network\<close>.
\<close>

theorem timeout_counterexample:
  "apiRetries \<lparr>hotCache = SimpleCache_new 500 3600000, db = None, apiUrl = ''https://api'', apiRetries = 2\<rparr> = 2
   \<and> getDefinition
        \<lparr>QuickDefineDB_loaded = False,
         idb = ascii_idb,
         encodeURIComponent = (\<lambda>s. s), net = (\<lambda>u n. Silent)\<rparr>
        0 ''hello''
        \<lparr>hotCache = SimpleCache_new 500 3600000, db = None, apiUrl = ''https://api'', apiRetries = 2\<rparr> []
     = (\<lparr>r_data = None, r_source = None, r_error = Some ''network'', r_message = Some ''Request timeout''\<rparr>,
        \<lparr>hotCache = SimpleCache_new 500 3600000, db = None, apiUrl = ''https://api'', apiRetries = 2\<rparr>,
        [],
        [CacheGet ''word_hello'', DbInit, Fetch ''https://api/hello'' 0, Abort ''https://api/hello'' 0])
   \<and> attempts [CacheGet ''word_hello'', DbInit, Fetch ''https://api/hello'' 0, Abort ''https://api/hello'' 0] = 1"
  by code_simp

text \<open>
  The theorem with one connection failure before the silent attempt: two requests.
\<close>

theorem timeout_not_retried_witness:
  "transient
        (\<lambda>u n. if n = 0 then Fails (JsError ''TypeError'' ''Failed to fetch'') else Silent)
        ''https://api/hello'' 0
   \<and> (1::nat) \<le> 2
   \<and> fetchWithTimeout
        (\<lambda>u n. if n = 0 then Fails (JsError ''TypeError'' ''Failed to fetch'') else Silent)
        ''https://api/hello'' 0 2
      = (Inl (JsError ''Error'' ''Request timeout''),
         [Fetch ''https://api/hello'' 0, Delay 1000, Fetch ''https://api/hello'' 1,
          Abort ''https://api/hello'' 1])
   \<and> attempts (snd (snd (snd (getDefinition
        \<lparr>QuickDefineDB_loaded = False,
         idb = ascii_idb,
         encodeURIComponent = (\<lambda>s. s),
         net = (\<lambda>u n. if n = 0 then Fails (JsError ''TypeError'' ''Failed to fetch'') else Silent)\<rparr>
        0 '' Hello''
        \<lparr>hotCache = SimpleCache_new 500 3600000, db = None, apiUrl = ''https://api'', apiRetries = 2\<rparr>
        [])))) = 2"
proof -
  let ?nw = "\<lambda>(u::string) (n::nat). if n = 0 then Fails (JsError ''TypeError'' ''Failed to fetch'') else Silent"
  let ?env = "\<lparr>QuickDefineDB_loaded = False,
         idb = ascii_idb,
         encodeURIComponent = (\<lambda>s. s), net = ?nw\<rparr>"
  let ?m = "\<lparr>hotCache = SimpleCache_new 500 3600000, db = None, apiUrl = ''https://api'', apiRetries = 2\<rparr>"
  have cw: "cleanWord ascii_idb '' Hello'' = ''hello''" by code_simp
  have u: "''https://api/hello'' = apiUrl ?m @ ''/'' @ encodeURIComponent ?env (cleanWord (idb ?env) '' Hello'')"
    by (simp add: cw)
  have t: "\<forall>j<1. transient (net ?env) ''https://api/hello'' j" by (simp add: transient_def)
  have k: "1 \<le> apiRetries ?m" by simp
  have s: "net ?env ''https://api/hello'' 1 = Silent" by simp
  have mi: "misses ?env 0 '' Hello'' ?m []"
    by (simp add: misses_def cw hotCacheResult_def afterHotCache_def SimpleCache_get_def
        SimpleCache_new_def initDB_def lookupDB_def)
  obtain res m' st' tr where g: "getDefinition ?env 0 '' Hello'' ?m [] = (res, m', st', tr)"
    by (cases "getDefinition ?env 0 '' Hello'' ?m []")
  have c: "fetchWithTimeout (net ?env) ''https://api/hello'' 0 (apiRetries ?m) =
           (Inl (JsError ''Error'' ''Request timeout''),
            retry_prefix ''https://api/hello'' 0 1 @ [Fetch ''https://api/hello'' 1, Abort ''https://api/hello'' 1])
       \<and> attempts tr = 1 + 1
       \<and> Abort ''https://api/hello'' 1 \<in> set tr
       \<and> r_data res = None \<and> r_error res \<noteq> None"
    by (rule timeout_not_retried[OF u t k s mi g])
  have 1: "transient ?nw ''https://api/hello'' 0" using t by simp
  have 3: "fetchWithTimeout ?nw ''https://api/hello'' 0 2
      = (Inl (JsError ''Error'' ''Request timeout''),
         [Fetch ''https://api/hello'' 0, Delay 1000, Fetch ''https://api/hello'' 1,
          Abort ''https://api/hello'' 1])"
    using c by simp
  have 4: "attempts (snd (snd (snd (getDefinition ?env 0 '' Hello'' ?m [])))) = 2"
    unfolding g using c by simp
  show ?thesis using 1 3 4 by simp
qed

text \<open>
  Claim C9. Let the first \<open>k\<close> attempts fail at the connection, with \<open>k\<close> within the
  retry count, and let the next attempt receive a response with status 404. Then
  \<open>fetchFromAPI\<close> returns \<open>{error: 'not_found'}\<close> and the request that received the 404
  is the last one sent: a 404 is never retried. In particular, when the first response is
  a 404 (\<open>k = 0\<close>) one request is sent and there is no retry. A lookup that reaches the API
  returns \<open>{error: 'not_found'}\<close> and leaves the store as it was.
\<close>

theorem not_found_no_retry:
  assumes "url = apiUrl m @ ''/'' @ encodeURIComponent env (cleanWord (idb env) w)"
    and "\<forall>j<k. transient (net env) url j" and "k \<le> apiRetries m"
    and "net env url k = Responds r" and "status r = 404"
    and "misses env now w m st"
    and "getDefinition env now w m st = (res, m', st', tr)"
  shows "fetchFromAPI env m (cleanWord (idb env) w) =
           (Inr (ApiError ''not_found''), retry_prefix url 0 k @ [Fetch url k])
       \<and> res = \<lparr>r_data = None, r_source = None, r_error = Some ''not_found'', r_message = None\<rparr>
       \<and> attempts tr = k + 1
       \<and> last tr = Fetch url k
       \<and> st' = st"
proof -
  have 1: "fetchFromAPI env m (cleanWord (idb env) w) =
           (Inr (ApiError ''not_found''), retry_prefix url 0 k @ [Fetch url k])"
    by (rule fetchFromAPI_404[OF assms(1-5)])
  obtain m3 tr2 where m3: "apiUrl m3 = apiUrl m" "apiRetries m3 = apiRetries m"
    and t2: "tr2 = [] \<or> tr2 = [DbGet (cleanWord (idb env) w)]"
    and g: "getDefinition env now w m st =
              (case fetchLayer env now (cleanWord (idb env) w) m3 st of
                 (res, m', st', tr3) \<Rightarrow> (res, m', st', [CacheGet (''word_'' @ cleanWord (idb env) w), DbInit] @ tr2 @ tr3))"
    using getDefinition_misses[OF assms(6)] by blast
  have tr2: "attempts tr2 = 0" using t2 by (auto simp: attempts_simps)
  have f: "fetchFromAPI env m3 (cleanWord (idb env) w) =
           (Inr (ApiError ''not_found''), retry_prefix url 0 k @ [Fetch url k])"
    using 1 fetchFromAPI_settings[OF m3] by simp
  have fl: "fetchLayer env now (cleanWord (idb env) w) m3 st =
      (of_api_result (ApiError ''not_found''), m3, st, retry_prefix url 0 k @ [Fetch url k])"
    by (simp add: fetchLayer_def f)
  have res: "res = of_api_result (ApiError ''not_found'')" and st: "st' = st"
    and tr: "tr = [CacheGet (''word_'' @ cleanWord (idb env) w), DbInit] @ tr2 @ retry_prefix url 0 k @ [Fetch url k]"
    using g assms(7) by (simp_all add: fl)
  have 2: "res = \<lparr>r_data = None, r_source = None, r_error = Some ''not_found'', r_message = None\<rparr>"
    by (simp add: res of_api_result_def)
  have 3: "attempts tr = k + 1"
    unfolding tr by (simp add: attempts_append attempts_retry_prefix tr2 attempts_simps)
  have 4: "last tr = Fetch url k" unfolding tr by simp
  show ?thesis using 1 2 3 4 st by simp
qed

text \<open>
  The theorem at \<open>k = 0\<close>: the API answers 404 at once, one request is sent.
\<close>

theorem not_found_no_retry_witness:
  "net \<lparr>QuickDefineDB_loaded = True,
         idb = ascii_idb,
         encodeURIComponent = (\<lambda>s. s),
         net = (\<lambda>u n. Responds \<lparr>status = 404, body = Inr (JObj [(''title'', JStr ''No Definitions Found'')])\<rparr>)\<rparr>
       ''https://api/qwzx'' 0
     = Responds \<lparr>status = 404, body = Inr (JObj [(''title'', JStr ''No Definitions Found'')])\<rparr>
   \<and> getDefinition
        \<lparr>QuickDefineDB_loaded = True,
         idb = ascii_idb,
         encodeURIComponent = (\<lambda>s. s),
         net = (\<lambda>u n. Responds \<lparr>status = 404, body = Inr (JObj [(''title'', JStr ''No Definitions Found'')])\<rparr>)\<rparr>
        0 ''Qwzx ''
        \<lparr>hotCache = SimpleCache_new 500 3600000, db = None, apiUrl = ''https://api'', apiRetries = 2\<rparr> []
     = (\<lparr>r_data = None, r_source = None, r_error = Some ''not_found'', r_message = None\<rparr>,
        \<lparr>hotCache = SimpleCache_new 500 3600000, db = Some Ready, apiUrl = ''https://api'', apiRetries = 2\<rparr>,
        [],
        [CacheGet ''word_qwzx'', DbInit, DbGet ''qwzx'', Fetch ''https://api/qwzx'' 0])
   \<and> attempts [CacheGet ''word_qwzx'', DbInit, DbGet ''qwzx'', Fetch ''https://api/qwzx'' 0] = 0 + 1"
proof -
  let ?r = "\<lparr>status = 404, body = Inr (JObj [(''title'', JStr ''No Definitions Found'')])\<rparr>"
  let ?env = "\<lparr>QuickDefineDB_loaded = True,
         idb = ascii_idb,
         encodeURIComponent = (\<lambda>s. s), net = (\<lambda>(u::string) (n::nat). Responds ?r)\<rparr>"
  let ?m = "\<lparr>hotCache = SimpleCache_new 500 3600000, db = None, apiUrl = ''https://api'', apiRetries = 2\<rparr>"
  have cw: "cleanWord ascii_idb ''Qwzx '' = ''qwzx''" by code_simp
  have u: "''https://api/qwzx'' = apiUrl ?m @ ''/'' @ encodeURIComponent ?env (cleanWord (idb ?env) ''Qwzx '')"
    by (simp add: cw)
  have t: "\<forall>j<0. transient (net ?env) ''https://api/qwzx'' j" by simp
  have k: "0 \<le> apiRetries ?m" by simp
  have s: "net ?env ''https://api/qwzx'' 0 = Responds ?r" by simp
  have st: "status ?r = 404" by simp
  have mi: "misses ?env 0 ''Qwzx '' ?m []"
    by (simp add: misses_def cw hotCacheResult_def afterHotCache_def SimpleCache_get_def
        SimpleCache_new_def initDB_def lookupDB_def DictionaryDB_init_def DictionaryDB_get_def)
  have g: "getDefinition ?env 0 ''Qwzx '' ?m [] =
     (fst (getDefinition ?env 0 ''Qwzx '' ?m []),
      \<lparr>hotCache = SimpleCache_new 500 3600000, db = Some Ready, apiUrl = ''https://api'', apiRetries = 2\<rparr>,
      snd (snd (getDefinition ?env 0 ''Qwzx '' ?m [])))"
    by code_simp
  have g': "getDefinition ?env 0 ''Qwzx '' ?m [] =
     (fst (getDefinition ?env 0 ''Qwzx '' ?m []),
      \<lparr>hotCache = SimpleCache_new 500 3600000, db = Some Ready, apiUrl = ''https://api'', apiRetries = 2\<rparr>,
      fst (snd (snd (getDefinition ?env 0 ''Qwzx '' ?m []))),
      [CacheGet ''word_qwzx'', DbInit, DbGet ''qwzx'', Fetch ''https://api/qwzx'' 0])"
    by code_simp
  from not_found_no_retry[OF u t k s st mi g'] s
  show ?thesis by (subst g') simp
qed

subsection \<open>The cascade of \<open>getDefinition\<close>\<close>

lemma fetch_first_event:
  "\<exists>rest. snd (fetchWithTimeout nw url n retries) = Fetch url n # rest"
  by (subst fetchWithTimeout.simps)
     (auto split: outcome.splits nat.splits prod.splits)

lemma fetchFromAPI_trace:
  "snd (fetchFromAPI env m w) = snd (fetchWithTimeout (net env) (apiUrl m @ ''/'' @ encodeURIComponent env w) 0 (apiRetries m))"
  by (auto simp: fetchFromAPI_def Let_def split: prod.splits sum.splits)

lemma fetchFromAPI_error_kinds:
  "fst (fetchFromAPI env m w) = Inr (ApiError k) \<Longrightarrow> k = ''timeout'' \<or> k = ''not_found''"
  by (auto simp: fetchFromAPI_def Let_def split: prod.splits sum.splits if_splits)

lemma fetchLayer_trace:
  "\<exists>rest. snd (snd (snd (fetchLayer env now cw m st))) = snd (fetchFromAPI env m cw) @ rest"
  by (auto simp: fetchLayer_def split: prod.splits sum.splits api_result.splits)

lemma fetchLayer_error_kinds:
  "r_error (fst (fetchLayer env now cw m st)) \<in> {None, Some ''not_found'', Some ''timeout'', Some ''network''}"
proof (cases "fetchFromAPI env m cw")
  case (Pair a tr)
  show ?thesis
  proof (cases a)
    case (Inl e)
    with Pair show ?thesis by (simp add: fetchLayer_def network_failure_def)
  next
    case (Inr b)
    show ?thesis
    proof (cases b)
      case (ApiData d)
      with Pair Inr show ?thesis
        by (simp add: fetchLayer_def found_def of_api_result_def split: prod.splits)
    next
      case (ApiError k)
      then have "k = ''timeout'' \<or> k = ''not_found''"
        using fetchFromAPI_error_kinds[of env m cw k] Pair Inr by simp
      with Pair Inr ApiError show ?thesis
        by (auto simp: fetchLayer_def of_api_result_def)
    qed
  qed
qed

lemma getDefinition_error_kinds:
  "r_error (fst (getDefinition env now w m st)) \<in> {None, Some ''not_found'', Some ''timeout'', Some ''network''}"
proof (cases "hotCacheResult env now w m")
  case (Some v)
  then show ?thesis by (simp add: getDefinition_def Let_def found_def)
next
  case None
  obtain h m3 tr2 where l: "lookupDB env (cleanWord (idb env) w) (initDB env (afterHotCache env now w m)) st = (h, m3, tr2)"
    by (cases "lookupDB env (cleanWord (idb env) w) (initDB env (afterHotCache env now w m)) st") auto
  show ?thesis
  proof (cases h)
    case (Some dt)
    with None l show ?thesis by (simp add: getDefinition_def Let_def found_def)
  next
    case n: None
    have "fst (getDefinition env now w m st) = fst (fetchLayer env now (cleanWord (idb env) w) m3 st)"
      using None l n by (simp add: getDefinition_def Let_def split: prod.splits)
    then show ?thesis using fetchLayer_error_kinds[of env now "cleanWord (idb env) w" m3 st] by simp
  qed
qed

lemma getDefinition_first_event:
  "\<exists>rest. snd (snd (snd (getDefinition env now w m st))) = CacheGet (''word_'' @ cleanWord (idb env) w) # rest"
  by (auto simp: getDefinition_def Let_def split: option.splits prod.splits)

lemma getDefinition_store_tier:
  "hotCacheResult env now w m = None \<Longrightarrow> DbInit \<in> set (snd (snd (snd (getDefinition env now w m st))))"
  by (auto simp: getDefinition_def Let_def split: option.splits prod.splits)

lemma getDefinition_remote_tier:
  assumes "misses env now w m st"
  shows "Fetch (apiUrl m @ ''/'' @ encodeURIComponent env (cleanWord (idb env) w)) 0
           \<in> set (snd (snd (snd (getDefinition env now w m st))))"
proof -
  obtain m3 tr2 where m3: "apiUrl m3 = apiUrl m" "apiRetries m3 = apiRetries m"
    and g: "getDefinition env now w m st =
              (case fetchLayer env now (cleanWord (idb env) w) m3 st of
                 (res, m', st', tr3) \<Rightarrow> (res, m', st', [CacheGet (''word_'' @ cleanWord (idb env) w), DbInit] @ tr2 @ tr3))"
    using getDefinition_misses[OF assms] by blast
  let ?url = "apiUrl m @ ''/'' @ encodeURIComponent env (cleanWord (idb env) w)"
  obtain r1 where "snd (fetchWithTimeout (net env) ?url 0 (apiRetries m)) = Fetch ?url 0 # r1"
    using fetch_first_event by blast
  then have "snd (fetchFromAPI env m3 (cleanWord (idb env) w)) = Fetch ?url 0 # r1"
    by (simp add: fetchFromAPI_trace m3)
  moreover obtain r2 where "snd (snd (snd (fetchLayer env now (cleanWord (idb env) w) m3 st))) = snd (fetchFromAPI env m3 (cleanWord (idb env) w)) @ r2"
    using fetchLayer_trace by blast
  ultimately have "Fetch ?url 0 \<in> set (snd (snd (snd (fetchLayer env now (cleanWord (idb env) w) m3 st))))"
    by simp
  then show ?thesis unfolding g by (auto split: prod.splits)
qed

lemma getDefinition_cleanWord:
  "cleanWord (idb env) w = cleanWord (idb env) w' \<Longrightarrow> getDefinition env now w m st = getDefinition env now w' m st"
proof -
  assume c: "cleanWord (idb env) w = cleanWord (idb env) w'"
  have "hotCacheResult env now w m = hotCacheResult env now w' m" "afterHotCache env now w m = afterHotCache env now w' m"
    by (simp_all add: hotCacheResult_def afterHotCache_def c)
  then show ?thesis unfolding getDefinition_def c by (simp only:)
qed

text \<open>
  Claim C3, as the code has it. \<open>getDefinition\<close> does not test its key: a word that is
  empty once cleaned is looked up like any other, as the empty word (which cleans to
  itself). The call always starts by reading the hot cache under the key \<open>word_\<close>; on a
  miss there it goes on to IndexedDB; when that misses too it sends a request for the
  empty word to the API. Its error, if any, is \<open>not_found\<close>, \<open>timeout\<close> or \<open>network\<close>:
  there is no input error.
\<close>

theorem empty_key_cascades:
  assumes "cleanWord (idb env) w = []"
    and "cleanWord (idb env) [] = []"
    and "getDefinition env now w m st = (res, m', st', tr)"
  shows "getDefinition env now w m st = getDefinition env now [] m st
     \<and> (\<exists>rest. tr = CacheGet ''word_'' # rest)
     \<and> (hotCacheResult env now w m = None \<longrightarrow> DbInit \<in> set tr)
     \<and> (misses env now w m st \<longrightarrow> Fetch (apiUrl m @ ''/'' @ encodeURIComponent env []) 0 \<in> set tr)
     \<and> r_error res \<in> {None, Some ''not_found'', Some ''timeout'', Some ''network''}"
proof -
  have 1: "getDefinition env now w m st = getDefinition env now [] m st"
    by (rule getDefinition_cleanWord) (simp add: assms(1,2))
  have tr: "tr = snd (snd (snd (getDefinition env now w m st)))" and res: "res = fst (getDefinition env now w m st)"
    by (simp_all add: assms(3))
  have 2: "\<exists>rest. tr = CacheGet ''word_'' # rest"
    using getDefinition_first_event[of env now w m st] by (simp add: tr assms(1))
  have 3: "hotCacheResult env now w m = None \<longrightarrow> DbInit \<in> set tr"
    unfolding tr using getDefinition_store_tier by blast
  have 4: "misses env now w m st \<longrightarrow> Fetch (apiUrl m @ ''/'' @ encodeURIComponent env []) 0 \<in> set tr"
    unfolding tr using getDefinition_remote_tier[of env now w m st] by (simp add: assms(1))
  have 5: "r_error res \<in> {None, Some ''not_found'', Some ''timeout'', Some ''network''}"
    unfolding res by (rule getDefinition_error_kinds)
  show ?thesis using 1 2 3 4 5 by (intro conjI)
qed

text \<open>
  Claim C3 as stated fails: for the key of two spaces the call reads the hot cache, asks
  the API and returns the data of its answer, with no error.
\<close>

theorem empty_key_counterexample:
  "cleanWord ascii_idb ''  '' = []
   \<and> getDefinition
        \<lparr>QuickDefineDB_loaded = False,
         idb = ascii_idb,
         encodeURIComponent = (\<lambda>s. s),
         net = (\<lambda>u n. Responds \<lparr>status = 200, body = Inr (JArr [JStr ''entry''])\<rparr>)\<rparr>
        0 ''  ''
        \<lparr>hotCache = SimpleCache_new 500 3600000, db = None, apiUrl = ''https://api'', apiRetries = 2\<rparr> []
     = (\<lparr>r_data = Some (JArr [JStr ''entry'']), r_source = Some api, r_error = None, r_message = None\<rparr>,
        \<lparr>hotCache = \<lparr>maxSize = 500, ttl = 3600000,
                     cache = [(''word_'', \<lparr>item_value = JArr [JStr ''entry''], timestamp = 0\<rparr>)]\<rparr>,
         db = None, apiUrl = ''https://api'', apiRetries = 2\<rparr>,
        [],
        [CacheGet ''word_'', DbInit, Fetch ''https://api/'' 0, CacheSet ''word_''])"
  by code_simp

text \<open>
  The theorem at that call: both tiers miss and the request for the empty word is sent.
\<close>

theorem empty_key_cascades_witness:
  "cleanWord ascii_idb ''  '' = []
   \<and> cleanWord ascii_idb [] = []
   \<and> misses
        \<lparr>QuickDefineDB_loaded = False,
         idb = ascii_idb,
         encodeURIComponent = (\<lambda>s. s),
         net = (\<lambda>u n. Responds \<lparr>status = 200, body = Inr (JArr [JStr ''entry''])\<rparr>)\<rparr>
        0 ''  ''
        \<lparr>hotCache = SimpleCache_new 500 3600000, db = None, apiUrl = ''https://api'', apiRetries = 2\<rparr> []
   \<and> Fetch ''https://api/'' 0 \<in> set (snd (snd (snd (getDefinition
        \<lparr>QuickDefineDB_loaded = False,
         idb = ascii_idb,
         encodeURIComponent = (\<lambda>s. s),
         net = (\<lambda>u n. Responds \<lparr>status = 200, body = Inr (JArr [JStr ''entry''])\<rparr>)\<rparr>
        0 ''  ''
        \<lparr>hotCache = SimpleCache_new 500 3600000, db = None, apiUrl = ''https://api'', apiRetries = 2\<rparr> []))))
   \<and> getDefinition
        \<lparr>QuickDefineDB_loaded = False,
         idb = ascii_idb,
         encodeURIComponent = (\<lambda>s. s),
         net = (\<lambda>u n. Responds \<lparr>status = 200, body = Inr (JArr [JStr ''entry''])\<rparr>)\<rparr>
        0 ''  ''
        \<lparr>hotCache = SimpleCache_new 500 3600000, db = None, apiUrl = ''https://api'', apiRetries = 2\<rparr> []
     = getDefinition
        \<lparr>QuickDefineDB_loaded = False,
         idb = ascii_idb,
         encodeURIComponent = (\<lambda>s. s),
         net = (\<lambda>u n. Responds \<lparr>status = 200, body = Inr (JArr [JStr ''entry''])\<rparr>)\<rparr>
        0 []
        \<lparr>hotCache = SimpleCache_new 500 3600000, db = None, apiUrl = ''https://api'', apiRetries = 2\<rparr> []"
proof -
  let ?env = "\<lparr>QuickDefineDB_loaded = False,
         idb = ascii_idb,
         encodeURIComponent = (\<lambda>s. s),
         net = (\<lambda>(u::string) (n::nat). Responds \<lparr>status = 200, body = Inr (JArr [JStr ''entry''])\<rparr>)\<rparr>"
  let ?m = "\<lparr>hotCache = SimpleCache_new 500 3600000, db = None, apiUrl = ''https://api'', apiRetries = 2\<rparr>"
  have cw: "cleanWord ascii_idb ''  '' = []" by code_simp
  have cn: "cleanWord ascii_idb [] = []" by code_simp
  have cw': "cleanWord (idb ?env) ''  '' = []" "cleanWord (idb ?env) [] = []"
    using cw cn by simp_all
  have mi: "misses ?env 0 ''  '' ?m []"
    by (simp add: misses_def cw hotCacheResult_def afterHotCache_def SimpleCache_get_def
        SimpleCache_new_def initDB_def lookupDB_def)
  obtain res m' st' tr where g: "getDefinition ?env 0 ''  '' ?m [] = (res, m', st', tr)"
    by (cases "getDefinition ?env 0 ''  '' ?m []")
  from empty_key_cascades[OF cw' g] mi
  have e: "getDefinition ?env 0 ''  '' ?m [] = getDefinition ?env 0 [] ?m []"
    and f0: "Fetch ''https://api/'' 0 \<in> set tr"
    by simp_all
  have f: "Fetch ''https://api/'' 0 \<in> set (snd (snd (snd (getDefinition ?env 0 ''  '' ?m []))))"
    using f0 by (simp add: g)
  show ?thesis by (intro conjI) (rule cw cn mi f e)+
qed

lemma db_afterHotCache [simp]: "db (afterHotCache env now w m) = db m"
  by (simp add: afterHotCache_def)




lemma initDB_unloaded: "\<not> QuickDefineDB_loaded env \<Longrightarrow> db (initDB env m) = db m"
  by (simp add: initDB_def)






subsection \<open>Preloading\<close>

lemma put_all_append: "put_all (put_all st a) b = put_all st (a @ b)"
  by (simp add: put_all_def)

lemma preload_records_split:
  "preload_records env now (take k es) @ preload_records env now (drop k es) = preload_records env now es"
  unfolding preload_records_def
  by (metis append_take_drop_id filter_append map_append)

lemma setBatch_ok:
  assumes "\<forall>k. put_error env k = None" "es \<noteq> []"
  shows "DictionaryDB_setBatch env now es Ready st =
           (Fulfilled (), Ready, put_all st (map (entryToStore env now) (filter has_word es)))"
proof -
  have ff: "first_fault env rs = None" for rs
    using assms(1) by (simp add: first_fault_def)
  have "fst (run_batch env (entryToStore env now) es st) = Fulfilled ()"
    using assms(2) by (simp add: run_batch_promise ff)
  moreover have "snd (run_batch env (entryToStore env now) es st)
      = put_all st (map (entryToStore env now) (filter has_word es))"
    by (simp add: run_batch_store ff)
  ultimately have "run_batch env (entryToStore env now) es st
      = (Fulfilled (), put_all st (map (entryToStore env now) (filter has_word es)))"
    by (metis prod.collapse)
  then show ?thesis by (simp add: DictionaryDB_setBatch_def DictionaryDB_init_def)
qed

lemma upt_step: "j < k \<Longrightarrow> [j..<k] = j # [Suc j..<k]"
  by (rule upt_conv_Cons)

lemma slice_at: "100 dvd i \<Longrightarrow> slice es (i div 100) = take batchSize (drop i es)"
  by (simp add: slice_def batchSize_def)

lemma preload_loop_ok:
  "\<forall>k. put_error env k = None \<Longrightarrow> d = Ready \<Longrightarrow>
   100 dvd i \<Longrightarrow> (i < length entries \<longrightarrow> processed = i) \<Longrightarrow>
     preload_loop env now entries onProgress i processed d st log =
       (Fulfilled (), Ready, put_all st (preload_records env now (drop i entries)),
        log @ concat (map (batch_events env entries onProgress)
                        [i div 100..<(length entries + 99) div 100]))"
proof (induction env now entries onProgress i processed d st log rule: preload_loop.induct)
  case (1 env now entries onProgress i processed d st log)
  let ?n = "length entries"
  note nofault = "1.prems"(1) and dR = "1.prems"(2) and dv = "1.prems"(3) and pinv = "1.prems"(4)
  show ?case
  proof (cases "i < ?n")
    case False
    then have e: "[i div 100..<(?n + 99) div 100] = []" using dv by auto
    have "drop i entries = []" using False by simp
    then show ?thesis using False dR unfolding e
      by (subst preload_loop.simps) (simp add: preload_records_def put_all_def)
  next
    case True
    let ?batch = "take batchSize (drop i entries)"
    let ?st' = "put_all st (map (entryToStore env now) (filter has_word (map (formatEntry env) ?batch)))"
    let ?p' = "processed + length ?batch"
    let ?log' = "log @ [SetBatch (map (formatEntry env) ?batch)]
                   @ (if onProgress then [OnProgress ?p' ?n] else [])"
    have ne: "map (formatEntry env) ?batch \<noteq> []" using True by (simp add: batchSize_def)
    have sb: "DictionaryDB_setBatch env now (map (formatEntry env) ?batch) d st = (Fulfilled (), Ready, ?st')"
      unfolding dR using nofault ne by (intro setBatch_ok)
    have d: "100 dvd (i + batchSize)" using dv by (simp add: batchSize_def)
    have pi: "processed = i" using True pinv by simp
    have lb: "length ?batch = min 100 (?n - i)" by (simp add: batchSize_def)
    have inv: "i + batchSize < ?n \<longrightarrow> ?p' = i + batchSize"
      using pi lb by (auto simp: batchSize_def)
    have ih: "preload_loop env now entries onProgress (i + batchSize) ?p' Ready ?st' ?log' =
       (Fulfilled (), Ready, put_all ?st' (preload_records env now (drop (i + batchSize) entries)),
        ?log' @ concat (map (batch_events env entries onProgress)
                          [(i + batchSize) div 100..<(?n + 99) div 100]))"
      using "1.IH"[OF True sb[symmetric] refl refl nofault refl d inv] .
    have step: "preload_loop env now entries onProgress i processed d st log =
        preload_loop env now entries onProgress (i + batchSize) ?p' Ready ?st' ?log'"
      by (subst preload_loop.simps) (simp add: True sb)
    have store: "put_all ?st' (preload_records env now (drop (i + batchSize) entries))
        = put_all st (preload_records env now (drop i entries))"
    proof -
      have "drop (i + batchSize) entries = drop batchSize (drop i entries)" by (simp add: add.commute)
      then show ?thesis
        using preload_records_split[of env now batchSize "drop i entries"]
        by (simp add: put_all_append preload_records_def[of env now ?batch])
    qed
    have j: "i div 100 < (?n + 99) div 100" using True dv by auto
    have j': "(i + batchSize) div 100 = Suc (i div 100)" by (simp add: batchSize_def)
    have pc: "(?p', ?n) = progress_call ?n (i div 100)"
      using pi lb dv True by (auto simp: progress_call_def batchSize_def min_def)
    have pf: "?p' = fst (progress_call ?n (i div 100))" "?n = snd (progress_call ?n (i div 100))"
      using pc by (metis fst_conv, metis snd_conv)
    have be: "[SetBatch (map (formatEntry env) ?batch)] @ (if onProgress then [OnProgress ?p' ?n] else [])
        = batch_events env entries onProgress (i div 100)"
      unfolding batch_events_def slice_at[OF dv] using pf by simp
    have logseq: "?log' @ concat (map (batch_events env entries onProgress)
                          [(i + batchSize) div 100..<(?n + 99) div 100])
        = log @ concat (map (batch_events env entries onProgress) [i div 100..<(?n + 99) div 100])"
      unfolding j' upt_step[OF j] using be by simp
    show ?thesis unfolding step ih store logseq ..
  qed
qed

lemma calls_of_append: "calls_of (a @ b) = calls_of a @ calls_of b"
  by (induction a rule: calls_of.induct) simp_all

lemma batches_of_append: "batches_of (a @ b) = batches_of a @ batches_of b"
  by (induction a rule: batches_of.induct) simp_all

lemma calls_of_batches:
  "calls_of (concat (map (batch_events env es True) js)) = map (progress_call (length es)) js"
  by (induction js) (simp_all add: batch_events_def calls_of_append)

lemma batches_of_batches:
  "batches_of (concat (map (batch_events env es onProgress) js))
     = map (\<lambda>j. map (formatEntry env) (slice es j)) js"
  by (induction js) (simp_all add: batch_events_def batches_of_append)

lemma concat_slices_take: "concat (map (slice es) [0..<k]) = take (k * batchSize) es"
proof (induction k)
  case 0
  show ?case by simp
next
  case (Suc k)
  have "take (k * batchSize) es @ take batchSize (drop (k * batchSize) es) = take (k * batchSize + batchSize) es"
    by (simp add: take_add)
  then show ?case using Suc.IH by (simp add: slice_def add.commute)
qed

lemma concat_slices: "concat (map (slice es) [0..<(length es + 99) div 100]) = es"
proof -
  have "length es \<le> (length es + 99) div 100 * batchSize" by (simp add: batchSize_def)
  then show ?thesis by (simp add: concat_slices_take)
qed

lemma slice_full: "j + 1 < (length es + 99) div 100 \<Longrightarrow> length (slice es j) = 100"
  by (auto simp: slice_def batchSize_def)

lemma slice_nonempty:
  "j < (length es + 99) div 100 \<Longrightarrow> slice es j \<noteq> [] \<and> length (slice es j) \<le> 100"
  by (auto simp: slice_def batchSize_def)

lemma keys_put_all: "fst ` set (put_all st rs) = fst ` set st \<union> s_word ` set rs"
proof (induction rs arbitrary: st)
  case Nil
  show ?case by (simp add: put_all_simps)
next
  case (Cons r rs)
  show ?case by (simp add: put_all_simps Cons.IH dom_update)
qed

lemma put_all_fresh:
  "distinct (map fst st @ map s_word rs) \<Longrightarrow> put_all st rs = st @ map (\<lambda>r. (s_word r, r)) rs"
proof (induction rs arbitrary: st)
  case Nil
  show ?case by (simp add: put_all_simps)
next
  case (Cons r rs)
  have "s_word r \<notin> fst ` set st" using Cons.prems by auto
  then have u: "AList.update (s_word r) r st = st @ [(s_word r, r)]" by (rule update_fresh)
  have "distinct (map fst (st @ [(s_word r, r)]) @ map s_word rs)" using Cons.prems by auto
  then show ?case using Cons.IH[of "st @ [(s_word r, r)]"] by (simp add: put_all_simps u)
qed

lemma words_of_records:
  assumes "normalising env"
  shows "map s_word (preload_records env now es) = preload_words env es"
proof (induction es)
  case Nil
  show ?case by (simp add: preload_records_def preload_words_def)
next
  case (Cons e es)
  note n = cleanWord_Nil[OF assms] and i = cleanWord_idem[OF assms]
  have a: "has_word (formatEntry env e) \<longleftrightarrow> cleanWord env (word_of e) \<noteq> []"
    by (auto simp: has_word_def formatEntry_def word_of_def n split: option.splits)
  have b: "s_word (entryToStore env now (formatEntry env e)) = cleanWord env (word_of e)"
    by (auto simp: entryToStore_def formatEntry_def word_of_def n i split: option.splits)
  show ?case using Cons.IH by (simp add: preload_records_def preload_words_def a b)
qed

lemma progress_calls_sorted:
  "sorted_wrt (<) (map fst (map (progress_call n) [0..<(n + 99) div 100]))"
proof -
  have "fst (progress_call n j) < fst (progress_call n j')" if "j < j'" "j' < (n + 99) div 100" for j j'
  proof -
    have a: "j' * 100 < n" using that(2) by arith
    have b: "(j + 1) * 100 \<le> j' * 100" using that(1) by simp
    show ?thesis using a b by (simp add: progress_call_def batchSize_def min_def)
  qed
  then show ?thesis
    by (auto simp: sorted_wrt_iff_nth_less)
qed

lemma progress_calls_last:
  "0 < n \<Longrightarrow> last (map (progress_call n) [0..<(n + 99) div 100]) = (n, n)"
proof -
  assume n: "0 < n"
  then have k: "0 < (n + 99) div 100" by auto
  then have "[0..<(n + 99) div 100] \<noteq> []" by simp
  then have "last (map (progress_call n) [0..<(n + 99) div 100]) = progress_call n ((n + 99) div 100 - 1)"
    by (simp add: last_map)
  also have "\<dots> = (n, n)" using k by (auto simp: progress_call_def batchSize_def min_def)
  finally show ?thesis .
qed

lemma preloadDictionary_ok:
  assumes "QuickDefineDB_loaded env" "open_error (idb env) = None" "\<forall>k. put_error (idb env) k = None"
    and "db m = None \<or> db m = Some Ready"
  shows "preloadDictionary env now entries onProgress m st =
           (Fulfilled (), (initDB env m)\<lparr>db := Some Ready\<rparr>,
            put_all st (preload_records (idb env) now entries),
            concat (map (batch_events (idb env) entries onProgress) [0..<(length entries + 99) div 100]))"
proof -
  have d: "db (initDB env m) = Some Ready"
    using assms(1,2,4) by (auto simp: initDB_def DictionaryDB_init_def)
  have "preload_loop (idb env) now entries onProgress 0 0 Ready st [] =
       (Fulfilled (), Ready, put_all st (preload_records (idb env) now (drop 0 entries)),
        [] @ concat (map (batch_events (idb env) entries onProgress)
                       [0 div 100..<(length entries + 99) div 100]))"
    using assms(3) by (intro preload_loop_ok) simp_all
  then show ?thesis by (simp add: preloadDictionary_def Let_def d)
qed

text \<open>
  Claim C7, as the code has it. With IndexedDB available and no failing request,
  \<open>preloadDictionary\<close> on \<open>n\<close> entries fulfils. It works in batches of 100, the constant
  of its body: the log of its calls is, for each \<open>j\<close> from 0 to \<open>(n + 99) div 100 - 1\<close> in
  turn, one \<open>setBatch\<close> on the formatted entries of slice \<open>j\<close> (the entries from
  \<open>100 * j\<close> up to \<open>100 * j + 100\<close>) followed by one \<open>onProgress\<close> reporting
  \<open>min ((j + 1) * 100) n\<close> of \<open>n\<close>, and nothing else. The slices, in their order, make
  up the list; none is empty, and all but the last hold 100 entries. So there are
  \<open>(n + 99) div 100\<close> calls of \<open>onProgress\<close>, their counts increase strictly, and the
  last one reports \<open>n\<close> of \<open>n\<close>; for 100 entries there is one call, \<open>(100, 100)\<close>. When
  cleaning a clean word changes nothing and the empty word is clean, the keys of the
  store afterwards are the old keys and the clean words of the entries that are not
  empty; when these are all distinct, \<open>count()\<close> is their number.
\<close>

theorem preload_progress:
  assumes "QuickDefineDB_loaded env" and "open_error (idb env) = None"
    and "\<forall>k. put_error (idb env) k = None"
    and "db m = None \<or> db m = Some Ready"
    and "preloadDictionary env now entries True m st = (p, m', st', log)"
  shows "p = Fulfilled ()
     \<and> log = concat (map (\<lambda>j. [SetBatch (map (formatEntry (idb env)) (slice entries j)),
                                OnProgress (min ((j + 1) * 100) (length entries)) (length entries)])
                        [0..<(length entries + 99) div 100])
     \<and> batches_of log = map (\<lambda>j. map (formatEntry (idb env)) (slice entries j))
                            [0..<(length entries + 99) div 100]
     \<and> concat (map (slice entries) [0..<(length entries + 99) div 100]) = entries
     \<and> (\<forall>j. j + 1 < (length entries + 99) div 100 \<longrightarrow> length (slice entries j) = 100)
     \<and> (\<forall>j < (length entries + 99) div 100. slice entries j \<noteq> [] \<and> length (slice entries j) \<le> 100)
     \<and> calls_of log = map (progress_call (length entries)) [0..<(length entries + 99) div 100]
     \<and> length (calls_of log) = (length entries + 99) div 100
     \<and> sorted_wrt (<) (map fst (calls_of log))
     \<and> (entries \<noteq> [] \<longrightarrow> last (calls_of log) = (length entries, length entries))
     \<and> (length entries = 100 \<longrightarrow> calls_of log = [(100, 100)])
     \<and> (normalising (idb env) \<longrightarrow>
          fst ` set st' = fst ` set st \<union> set (preload_words (idb env) entries)
          \<and> (distinct (map fst st @ preload_words (idb env) entries) \<longrightarrow>
               DictionaryDB_count (idb env) Ready st'
                 = (Fulfilled (length st + length (preload_words (idb env) entries)), Ready)))"
proof -
  let ?n = "length entries"
  let ?k = "(?n + 99) div 100"
  have r: "p = Fulfilled ()" "st' = put_all st (preload_records (idb env) now entries)"
    "log = concat (map (batch_events (idb env) entries True) [0..<?k])"
    using preloadDictionary_ok[OF assms(1-4), of now entries True st] assms(5) by simp_all
  have be: "batch_events (idb env) entries True
      = (\<lambda>j. [SetBatch (map (formatEntry (idb env)) (slice entries j)),
               OnProgress (min ((j + 1) * 100) ?n) ?n])"
    by (rule ext) (simp add: batch_events_def progress_call_def batchSize_def)
  have l: "log = concat (map (\<lambda>j. [SetBatch (map (formatEntry (idb env)) (slice entries j)),
                                OnProgress (min ((j + 1) * 100) ?n) ?n]) [0..<?k])"
    using r(3) unfolding be .
  have b: "batches_of log = map (\<lambda>j. map (formatEntry (idb env)) (slice entries j)) [0..<?k]"
    unfolding r(3) by (rule batches_of_batches)
  have s1: "concat (map (slice entries) [0..<?k]) = entries" by (rule concat_slices)
  have s2: "\<forall>j. j + 1 < ?k \<longrightarrow> length (slice entries j) = 100"
    using slice_full[of _ entries] by blast
  have s3: "\<forall>j < ?k. slice entries j \<noteq> [] \<and> length (slice entries j) \<le> 100"
    using slice_nonempty[of _ entries] by blast
  have c: "calls_of log = map (progress_call ?n) [0..<?k]"
    unfolding r(3) by (rule calls_of_batches)
  have 3: "length (calls_of log) = ?k" by (simp add: c)
  have 4: "sorted_wrt (<) (map fst (calls_of log))" unfolding c by (rule progress_calls_sorted)
  have 5: "entries \<noteq> [] \<longrightarrow> last (calls_of log) = (?n, ?n)"
    unfolding c using progress_calls_last[of ?n] by simp
  have 6: "?n = 100 \<longrightarrow> calls_of log = [(100, 100)]"
    by (simp add: c progress_call_def batchSize_def)
  have 7: "fst ` set st' = fst ` set st \<union> set (preload_words (idb env) entries)"
    if nm: "normalising (idb env)"
  proof -
    have "s_word ` set (preload_records (idb env) now entries)
        = set (map s_word (preload_records (idb env) now entries))"
      by simp
    then show ?thesis unfolding r(2) keys_put_all by (simp only: words_of_records[OF nm])
  qed
  have 8: "DictionaryDB_count (idb env) Ready st'
            = (Fulfilled (length st + length (preload_words (idb env) entries)), Ready)"
    if nm: "normalising (idb env)" and "distinct (map fst st @ preload_words (idb env) entries)"
  proof -
    have "distinct (map fst st @ map s_word (preload_records (idb env) now entries))"
      using that(2) by (simp add: words_of_records[OF nm])
    then have "st' = st @ map (\<lambda>r. (s_word r, r)) (preload_records (idb env) now entries)"
      unfolding r(2) by (rule put_all_fresh)
    then have "length st' = length st + length (map s_word (preload_records (idb env) now entries))"
      by simp
    then show ?thesis
      by (simp add: DictionaryDB_count_def DictionaryDB_init_def words_of_records[OF nm])
  qed
  have c8: "normalising (idb env) \<longrightarrow>
          fst ` set st' = fst ` set st \<union> set (preload_words (idb env) entries)
          \<and> (distinct (map fst st @ preload_words (idb env) entries) \<longrightarrow>
               DictionaryDB_count (idb env) Ready st'
                 = (Fulfilled (length st + length (preload_words (idb env) entries)), Ready))"
  proof (intro impI conjI)
    assume nm: "normalising (idb env)"
    show "fst ` set st' = fst ` set st \<union> set (preload_words (idb env) entries)" by (rule 7[OF nm])
    assume "distinct (map fst st @ preload_words (idb env) entries)"
    with nm show "DictionaryDB_count (idb env) Ready st'
                 = (Fulfilled (length st + length (preload_words (idb env) entries)), Ready)"
      by (rule 8)
  qed
  show ?thesis by (intro conjI) (rule r(1) l b s1 s2 s3 c 3 4 5 6 c8)+
qed

lemma digits_chars: "\<forall>c \<in> set (digits n). 48 \<le> (of_char c :: nat) \<and> (of_char c :: nat) \<le> 57"
proof (induction n rule: digits.induct)
  case (1 n)
  have c: "(of_char (char_of (48 + k :: nat)) :: nat) = 48 + k" if "k < 10" for k
    using that by (simp add: of_char_of)
  show ?case
  proof (cases "n < 10")
    case True
    then show ?thesis using c[of n] by (subst digits.simps) simp
  next
    case False
    have "n mod 10 < 10" by simp
    then show ?thesis using False "1.IH" c[of "n mod 10"] by (subst digits.simps) auto
  qed
qed

lemma digits_ne: "digits n \<noteq> []"
  by (subst digits.simps) simp

lemma digits_value: "foldl (\<lambda>a c. 10 * a + ((of_char c :: nat) - 48)) 0 (digits n) = n"
proof (induction n rule: digits.induct)
  case (1 n)
  have c: "(of_char (char_of (48 + k :: nat)) :: nat) = 48 + k" if "k < 10" for k
    using that by (simp add: of_char_of)
  show ?case
  proof (cases "n < 10")
    case True
    then show ?thesis using c[of n] by (subst digits.simps) simp
  next
    case False
    have "n mod 10 < 10" by simp
    then show ?thesis using False "1.IH" c[of "n mod 10"] by (subst digits.simps) simp
  qed
qed

lemma digits_inj: "digits a = digits b \<Longrightarrow> a = b"
  by (metis digits_value)

lemma dropWhile_none: "\<forall>c \<in> set s. \<not> P c \<Longrightarrow> dropWhile P s = s"
  by (cases s) simp_all

lemma clean_digits: "cleanWord ascii_idb (digits n) = digits n"
proof -
  have s: "\<forall>c \<in> set (digits n). \<not> ascii_space c"
    using digits_chars[of n] by (auto simp: ascii_space_def Let_def)
  have l: "\<forall>c \<in> set (digits n). ascii_lower c = c"
    using digits_chars[of n] by (auto simp: ascii_lower_def Let_def)
  have "ascii_trim (digits n) = digits n"
    using s by (simp add: ascii_trim_def dropWhile_none)
  moreover have "ascii_toLowerCase (digits n) = digits n"
    using l by (simp add: ascii_toLowerCase_def map_idI)
  ultimately show ?thesis by (simp add: cleanWord_def)
qed

lemma words_digits:
  "preload_words ascii_idb (map (\<lambda>i. \<lparr>word = Some (digits i), data = Some (JArr [JNum (int i)])\<rparr>) [a..<b])
     = map digits [a..<b]"
  by (simp add: preload_words_def word_of_def clean_digits digits_ne o_def)

lemma distinct_digits: "distinct (map digits [a..<b])"
  by (simp add: distinct_map inj_on_def) (blast dest: digits_inj)

lemma format_digits:
  "map (formatEntry ascii_idb) (map (\<lambda>i. \<lparr>word = Some (digits i), data = Some (JArr [JNum (int i)])\<rparr>) [a..<b])
     = map (\<lambda>i. \<lparr>word = Some (digits i), data = Some (JArr [JNum (int i)])\<rparr>) [a..<b]"
  by (simp add: formatEntry_def clean_digits data_or_entry_def)

lemma slices250:
  "slice (map f [0..<250]) 0 = map f [0..<100]"
  "slice (map f [0..<250]) 1 = map f [100..<200]"
  "slice (map f [0..<250]) 2 = map f [200..<250]"
  by (simp_all add: slice_def batchSize_def take_map drop_map)

lemma upt3: "[0..<(250 + 99) div 100] = [0, 1, 2]"
  by code_simp

lemma length250: "length (map f [0..<250]) = 250"
  by simp

text \<open>
  Claim C7 as stated fails: for 100 entries there is one \<open>setBatch\<close>, on all of them,
  and \<open>onProgress\<close> is called once, not ten times.
\<close>

theorem preload_counterexample:
  "length (map (\<lambda>i. \<lparr>word = Some (digits i), data = Some (JNum (int i))\<rparr>) [0..<100]) = 100
   \<and> calls_of (snd (snd (snd (preloadDictionary
        \<lparr>QuickDefineDB_loaded = True, idb = ascii_idb,
         encodeURIComponent = (\<lambda>s. s), net = (\<lambda>u n. Silent)\<rparr>
        0 (map (\<lambda>i. \<lparr>word = Some (digits i), data = Some (JNum (int i))\<rparr>) [0..<100]) True
        \<lparr>hotCache = SimpleCache_new 500 3600000, db = None, apiUrl = ''https://api'', apiRetries = 2\<rparr>
        [])))) = [(100, 100)]
   \<and> batches_of (snd (snd (snd (preloadDictionary
        \<lparr>QuickDefineDB_loaded = True, idb = ascii_idb,
         encodeURIComponent = (\<lambda>s. s), net = (\<lambda>u n. Silent)\<rparr>
        0 (map (\<lambda>i. \<lparr>word = Some (digits i), data = Some (JNum (int i))\<rparr>) [0..<100]) True
        \<lparr>hotCache = SimpleCache_new 500 3600000, db = None, apiUrl = ''https://api'', apiRetries = 2\<rparr>
        []))))
       = [map (formatEntry ascii_idb) (map (\<lambda>i. \<lparr>word = Some (digits i), data = Some (JNum (int i))\<rparr>) [0..<100])]"
proof -
  let ?env = "\<lparr>QuickDefineDB_loaded = True, idb = ascii_idb,
         encodeURIComponent = (\<lambda>s. s), net = (\<lambda>(u::string) (n::nat). Silent)\<rparr>"
  let ?m = "\<lparr>hotCache = SimpleCache_new 500 3600000, db = None, apiUrl = ''https://api'', apiRetries = 2\<rparr>"
  let ?es = "(map (\<lambda>i. \<lparr>word = Some (digits i), data = Some (JNum (int i))\<rparr>) [0..<100])"
  have l: "length ?es = 100" by simp
  have u: "[0..<(100 + 99) div 100] = [0]" by code_simp
  have s: "slice ?es 0 = ?es" by (simp add: slice_def batchSize_def)
  have g: "snd (snd (snd (preloadDictionary ?env 0 ?es True ?m []))) =
          concat (map (batch_events (idb ?env) ?es True) [0..<(length ?es + 99) div 100])"
    by (subst preloadDictionary_ok) simp_all
  have c: "calls_of (snd (snd (snd (preloadDictionary ?env 0 ?es True ?m [])))) = [(100, 100)]"
    unfolding g calls_of_batches l u by (simp add: progress_call_def batchSize_def)
  have b: "batches_of (snd (snd (snd (preloadDictionary ?env 0 ?es True ?m []))))
       = [map (formatEntry ascii_idb) ?es]"
    unfolding g batches_of_batches l u by (simp add: s)
  show ?thesis by (intro conjI) (rule l c b)+
qed

text \<open>
  The theorem at 250 entries with distinct words and an empty store: three batches, of
  100, 100 and 50 entries, each followed by its call of \<open>onProgress\<close>, with the counts
  100, 200 and 250, and 250 records counted afterwards.
\<close>

theorem preload_progress_witness:
  "normalising ascii_idb
   \<and> distinct (preload_words ascii_idb (map (\<lambda>i. \<lparr>word = Some (digits i), data = Some (JArr [JNum (int i)])\<rparr>) [0..<250]))
   \<and> fst (preloadDictionary
        \<lparr>QuickDefineDB_loaded = True, idb = ascii_idb,
         encodeURIComponent = (\<lambda>s. s), net = (\<lambda>u n. Silent)\<rparr>
        0 (map (\<lambda>i. \<lparr>word = Some (digits i), data = Some (JArr [JNum (int i)])\<rparr>) [0..<250]) True
        \<lparr>hotCache = SimpleCache_new 500 3600000, db = None, apiUrl = ''https://api'', apiRetries = 2\<rparr>
        []) = Fulfilled ()
   \<and> snd (snd (snd (preloadDictionary
        \<lparr>QuickDefineDB_loaded = True, idb = ascii_idb,
         encodeURIComponent = (\<lambda>s. s), net = (\<lambda>u n. Silent)\<rparr>
        0 (map (\<lambda>i. \<lparr>word = Some (digits i), data = Some (JArr [JNum (int i)])\<rparr>) [0..<250]) True
        \<lparr>hotCache = SimpleCache_new 500 3600000, db = None, apiUrl = ''https://api'', apiRetries = 2\<rparr>
        [])))
       = [SetBatch (map (\<lambda>i. \<lparr>word = Some (digits i), data = Some (JArr [JNum (int i)])\<rparr>) [0..<100]), OnProgress 100 250,
          SetBatch (map (\<lambda>i. \<lparr>word = Some (digits i), data = Some (JArr [JNum (int i)])\<rparr>) [100..<200]), OnProgress 200 250,
          SetBatch (map (\<lambda>i. \<lparr>word = Some (digits i), data = Some (JArr [JNum (int i)])\<rparr>) [200..<250]), OnProgress 250 250]
   \<and> calls_of (snd (snd (snd (preloadDictionary
        \<lparr>QuickDefineDB_loaded = True, idb = ascii_idb,
         encodeURIComponent = (\<lambda>s. s), net = (\<lambda>u n. Silent)\<rparr>
        0 (map (\<lambda>i. \<lparr>word = Some (digits i), data = Some (JArr [JNum (int i)])\<rparr>) [0..<250]) True
        \<lparr>hotCache = SimpleCache_new 500 3600000, db = None, apiUrl = ''https://api'', apiRetries = 2\<rparr>
        [])))) = [(100, 250), (200, 250), (250, 250)]
   \<and> DictionaryDB_count ascii_idb Ready (fst (snd (snd (preloadDictionary
        \<lparr>QuickDefineDB_loaded = True, idb = ascii_idb,
         encodeURIComponent = (\<lambda>s. s), net = (\<lambda>u n. Silent)\<rparr>
        0 (map (\<lambda>i. \<lparr>word = Some (digits i), data = Some (JArr [JNum (int i)])\<rparr>) [0..<250]) True
        \<lparr>hotCache = SimpleCache_new 500 3600000, db = None, apiUrl = ''https://api'', apiRetries = 2\<rparr>
        [])))) = (Fulfilled 250, Ready)"
proof -
  let ?env = "\<lparr>QuickDefineDB_loaded = True, idb = ascii_idb,
         encodeURIComponent = (\<lambda>s. s), net = (\<lambda>(u::string) (n::nat). Silent)\<rparr>"
  let ?m = "\<lparr>hotCache = SimpleCache_new 500 3600000, db = None, apiUrl = ''https://api'', apiRetries = 2\<rparr>"
  let ?f = "(\<lambda>i. \<lparr>word = Some (digits i), data = Some (JArr [JNum (int i)])\<rparr>)"
  let ?es = "map ?f [0..<250]"
  obtain p m' st' log where g: "preloadDictionary ?env 0 ?es True ?m [] = (p, m', st', log)"
    by (cases "preloadDictionary ?env 0 ?es True ?m []")
  have h: "QuickDefineDB_loaded ?env" "open_error (idb ?env) = None"
    "\<forall>k. put_error (idb ?env) k = None" "db ?m = None \<or> db ?m = Some Ready"
    by simp_all
  have ie: "idb ?env = ascii_idb" by simp
  have len: "length ?es = 250" by (rule length250)
  have nm: "normalising ascii_idb" by (rule ascii_idb_normalising)
  have dw: "distinct (preload_words ascii_idb ?es)"
    unfolding words_digits by (rule distinct_digits)
  have lw: "length (preload_words ascii_idb ?es) = 250"
    unfolding words_digits by simp
  note t = preload_progress[OF h g, unfolded ie len upt3]
  have 1: "p = Fulfilled ()" using t by (rule conjunct1)
  have "log = concat (map (\<lambda>j. [SetBatch (map (formatEntry ascii_idb) (slice ?es j)),
                                OnProgress (min ((j + 1) * 100) 250) 250]) [0, 1, 2])"
    using t by (elim conjE)
  then have 2: "log = [SetBatch (map ?f [0..<100]), OnProgress 100 250,
          SetBatch (map ?f [100..<200]), OnProgress 200 250,
          SetBatch (map ?f [200..<250]), OnProgress 250 250]"
    unfolding list.map concat.simps slices250 format_digits by simp
  have 3: "calls_of log = [(100, 250), (200, 250), (250, 250)]"
    unfolding 2 by simp
  have "normalising ascii_idb \<longrightarrow>
          fst ` set st' = fst ` set ([] :: objectStore) \<union> set (preload_words ascii_idb ?es)
          \<and> (distinct (map fst ([] :: objectStore) @ preload_words ascii_idb ?es) \<longrightarrow>
               DictionaryDB_count ascii_idb Ready st'
                 = (Fulfilled (length ([] :: objectStore) + length (preload_words ascii_idb ?es)), Ready))"
    using t by (elim conjE)
  from this[THEN mp, OF nm]
  have "distinct (map fst ([] :: objectStore) @ preload_words ascii_idb ?es) \<longrightarrow>
               DictionaryDB_count ascii_idb Ready st'
                 = (Fulfilled (length ([] :: objectStore) + length (preload_words ascii_idb ?es)), Ready)"
    by (rule conjunct2)
  then have 4: "DictionaryDB_count ascii_idb Ready st' = (Fulfilled 250, Ready)"
    using dw by (simp add: lw)
  have f: "fst (preloadDictionary ?env 0 ?es True ?m []) = p"
    "snd (snd (snd (preloadDictionary ?env 0 ?es True ?m []))) = log"
    "fst (snd (snd (preloadDictionary ?env 0 ?es True ?m []))) = st'"
    by (simp_all only: g fst_conv snd_conv)
  show ?thesis unfolding f by (intro conjI) (rule nm dw 1 2 3 4)+
qed

end
